theory Spec2Isabelle
  imports Main
begin

section \<open>The values of the Python program\<close>

subsection \<open>Exceptions\<close>

text \<open>
  Every exception that \<^verbatim>\<open>DiceBag\<close> can raise is a value of the type below.
  \<^item> \<open>InvalidDiceString s\<close>: the \<^verbatim>\<open>ValueError\<close> of line 139, "Invalid string for DiceBag
    (s) - dice string must contain only 0-9, +, -, d, or spaces";
  \<^item> \<open>UnsupportedSegment seg\<close>: the \<^verbatim>\<open>ValueError\<close> of line 153, "DiceBag created with
    segment of unsupported format", where \<open>seg\<close> is the text of the segment;
  \<^item> \<open>IntOfInfinity\<close>: the \<^verbatim>\<open>OverflowError\<close> of \<^verbatim>\<open>int(inf)\<close>;
  \<^item> \<open>IntOfNaN\<close>: the \<^verbatim>\<open>ValueError\<close> of \<^verbatim>\<open>int(nan)\<close>;
  \<^item> \<open>EmptyRange\<close>: the \<^verbatim>\<open>ValueError\<close> of \<^verbatim>\<open>randrange(s)\<close> with \<open>s \<le> 0\<close>.
\<close>

datatype error =
    InvalidDiceString string
  | UnsupportedSegment string
  | IntOfInfinity
  | IntOfNaN
  | EmptyRange

subsection \<open>Floating-point numbers\<close>

text \<open>
  \<^verbatim>\<open>DiceBag\<close> stores quantities and sizes as Python floats (IEEE 754 binary64) and sums
  them as floats. Every finite float the class computes is a multiple of one half: a run of
  decimal digits is an integer, sums and products of integers are integers, and the only
  division is the one by \<^verbatim>\<open>2.0\<close> in \<^verbatim>\<open>average\<close>. So a finite float is represented by
  twice its value: \<open>Finite h\<close> is the float \<open>h / 2\<close>. The two zeros of IEEE 754 are
  identified: the class never divides by a float and never prints one, and addition,
  multiplication, comparison with \<^verbatim>\<open>0\<close> and \<^verbatim>\<open>int()\<close> give the same answers for both.
\<close>

datatype pyfloat = Finite int | PInf | NInf | NaN

text \<open>Python's \<^verbatim>\<open>int.bit_length()\<close>, for a number that is not negative.\<close>

function bit_length :: "int \<Rightarrow> nat" where
  "bit_length n = (if n \<le> 0 then 0 else Suc (bit_length (n div 2)))"
  by pat_completeness auto
termination
  by (relation "measure nat") auto

declare bit_length.simps [simp del]

text \<open>
  Rounding of a number that is not negative to 53 significant bits, to nearest, ties to even: the
  rounding of binary64. A number of at most 53 bits is kept; otherwise the \<open>e\<close> low bits
  are dropped and the 53 high bits are incremented when the dropped part is more than half
  a unit, or exactly half a unit with an odd last kept bit.
\<close>

definition round_sig :: "int \<Rightarrow> int" where
  "round_sig a =
     (let e = bit_length a - 53 in
      if e = 0 then a
      else let q = a div 2 ^ e; r = a mod 2 ^ e; half = 2 ^ (e - 1)
           in (if half < r \<or> (r = half \<and> odd q) then q + 1 else q) * 2 ^ e)"

text \<open>
  The float nearest to \<open>h / 2\<close>. The largest finite binary64 is \<open>(2^53 - 1) * 2^971\<close>;
  a value that rounds to \<open>2^1024\<close> or more (\<open>2^1025\<close> halves) overflows to an infinity.
  No value here is small enough to be subnormal: the least positive one is \<open>1 / 2\<close>.
\<close>

definition fround :: "int \<Rightarrow> pyfloat" where
  "fround h =
     (let m = round_sig \<bar>h\<bar> in
      if 2 ^ 1025 \<le> m then (if h < 0 then NInf else PInf)
      else Finite (if h < 0 then - m else m))"

text \<open>The sign of a float that is not a NaN.\<close>

fun fsgn :: "pyfloat \<Rightarrow> int" where
  "fsgn (Finite a) = sgn a"
| "fsgn PInf = 1"
| "fsgn NInf = - 1"
| "fsgn NaN = 0"

text \<open>Float addition \<^verbatim>\<open>x + y\<close>.\<close>

fun fadd :: "pyfloat \<Rightarrow> pyfloat \<Rightarrow> pyfloat" where
  "fadd (Finite a) (Finite b) = fround (a + b)"
| "fadd NaN y = NaN"
| "fadd x NaN = NaN"
| "fadd PInf NInf = NaN"
| "fadd NInf PInf = NaN"
| "fadd PInf y = PInf"
| "fadd NInf y = NInf"
| "fadd x PInf = PInf"
| "fadd x NInf = NInf"

text \<open>
  Float multiplication \<^verbatim>\<open>x * y\<close>. The product of \<open>a / 2\<close> and \<open>b / 2\<close> is
  \<open>(a * b / 2) / 2\<close>; the class multiplies integer-valued floats only (\<open>a\<close> and \<open>b\<close>
  even), where \<open>a * b\<close> is a multiple of four.
\<close>

fun fmul :: "pyfloat \<Rightarrow> pyfloat \<Rightarrow> pyfloat" where
  "fmul (Finite a) (Finite b) = fround (a * b div 2)"
| "fmul x y =
     (if x = NaN \<or> y = NaN then NaN
      else let s = fsgn x * fsgn y in if s = 0 then NaN else if 0 < s then PInf else NInf)"

text \<open>
  Float division by two, \<^verbatim>\<open>x / 2.0\<close>: exact in binary64 (the exponent drops by one and no
  value here is subnormal). The class halves integer-valued floats only (\<open>a\<close> even).
\<close>

fun fhalf :: "pyfloat \<Rightarrow> pyfloat" where
  "fhalf (Finite a) = Finite (a div 2)"
| "fhalf x = x"

text \<open>The comparison \<^verbatim>\<open>x >= 0\<close>, false for a NaN.\<close>

fun fge0 :: "pyfloat \<Rightarrow> bool" where
  "fge0 (Finite a) = (0 \<le> a)"
| "fge0 PInf = True"
| "fge0 NInf = False"
| "fge0 NaN = False"

text \<open>\<^verbatim>\<open>int(x)\<close>: truncation toward zero; an infinity and a NaN raise.\<close>

fun py_int :: "pyfloat \<Rightarrow> error + int" where
  "py_int (Finite h) = Inr (if 0 \<le> h then h div 2 else - ((- h) div 2))"
| "py_int PInf = Inl IntOfInfinity"
| "py_int NInf = Inl IntOfInfinity"
| "py_int NaN = Inl IntOfNaN"

subsection \<open>Characters\<close>

text \<open>
  A Python string is modelled as a \<^typ>\<open>string\<close>, a list of characters with code points
  below 256. There, the characters matched by \<^verbatim>\<open>\d\<close> are the ten ASCII digits, and the
  ones matched by \<^verbatim>\<open>\s\<close>, which are also the ones \<^verbatim>\<open>str.split()\<close> splits at, are the six
  ASCII whitespace characters, the four separators \<open>0x1C\<close> to \<open>0x1F\<close>, \<open>0x85\<close> and \<open>0xA0\<close>.
\<close>

definition is_digit :: "char \<Rightarrow> bool" where
  "is_digit c \<longleftrightarrow> c \<in> set ''0123456789''"

definition is_space :: "char \<Rightarrow> bool" where
  "is_space c \<longleftrightarrow>
     c \<in> set [CHR 0x09, CHR 0x0A, CHR 0x0B, CHR 0x0C, CHR 0x0D,
              CHR 0x1C, CHR 0x1D, CHR 0x1E, CHR 0x1F, CHR 0x20, CHR 0x85, CHR 0xA0]"

definition is_sign :: "char \<Rightarrow> bool" where
  "is_sign c \<longleftrightarrow> c = CHR ''+'' \<or> c = CHR ''-''"

text \<open>
  \<^verbatim>\<open>float(s)\<close> for a string \<open>s\<close> of the shape \<^verbatim>\<open>[+-]?\d+\<close>, the only strings that the
  constructor passes to it: the decimal value of the digits, with the sign, rounded to the
  nearest float.
\<close>

definition digit_value :: "char \<Rightarrow> int" where
  "digit_value c = of_char c - 48"

definition decimal :: "string \<Rightarrow> int" where
  "decimal ds = foldl (\<lambda>n c. 10 * n + digit_value c) 0 ds"

fun py_float :: "string \<Rightarrow> pyfloat" where
  "py_float [] = fround 0"
| "py_float (c # cs) =
     (if c = CHR ''-'' then fround (- (2 * decimal cs))
      else if c = CHR ''+'' then fround (2 * decimal cs)
      else fround (2 * decimal (c # cs)))"

section \<open>The class DiceBag\<close>

subsection \<open>The regular expressions\<close>

text \<open>
  \<^verbatim>\<open>pattern_valid_dice = re.compile(r'[\d\sd+-]+')\<close>, used through \<^verbatim>\<open>match\<close>: the longest
  run of characters of the class at the start of the string, or \<open>None\<close> when that run is
  empty.
\<close>

definition valid_dice_char :: "char \<Rightarrow> bool" where
  "valid_dice_char c \<longleftrightarrow> is_digit c \<or> is_space c \<or> c = CHR ''d'' \<or> is_sign c"

definition pattern_valid_dice_match :: "string \<Rightarrow> string option" where
  "pattern_valid_dice_match s =
     (case takeWhile valid_dice_char s of [] \<Rightarrow> None | m # ms \<Rightarrow> Some (m # ms))"

text \<open>
  \<^verbatim>\<open>pattern_dice_segment = re.compile(r'[+-]?[^+-]+')\<close>, used through \<^verbatim>\<open>finditer\<close>: the
  matches from left to right. At a sign that is followed by a character other than a sign,
  the match is the sign and the run after it; at a sign followed by a sign or by the end
  there is no match, and the search goes on one character further; at any other character
  the match is the run of characters other than signs.
\<close>

function pattern_dice_segment_finditer :: "string \<Rightarrow> string list" where
  "pattern_dice_segment_finditer [] = []"
| "pattern_dice_segment_finditer (c # cs) =
     (if is_sign c then
        (case takeWhile (\<lambda>x. \<not> is_sign x) cs of
           [] \<Rightarrow> pattern_dice_segment_finditer cs
         | r # rs \<Rightarrow> (c # r # rs) # pattern_dice_segment_finditer (dropWhile (\<lambda>x. \<not> is_sign x) cs))
      else takeWhile (\<lambda>x. \<not> is_sign x) (c # cs)
           # pattern_dice_segment_finditer (dropWhile (\<lambda>x. \<not> is_sign x) cs))"
  by pat_completeness auto
termination
  by (relation "measure length") (auto simp: length_dropWhile_le less_Suc_eq_le)

text \<open>
  The optional sign \<^verbatim>\<open>[+-]?\<close> at the start of a segment: the sign taken and the rest.
  (Taking no sign where there is one leaves a sign in front of \<^verbatim>\<open>\d+\<close>, which fails.)
\<close>

fun optional_sign :: "string \<Rightarrow> string \<times> string" where
  "optional_sign [] = ([], [])"
| "optional_sign (c # cs) = (if is_sign c then ([c], cs) else ([], c # cs))"

text \<open>\<^verbatim>\<open>$\<close> without \<^verbatim>\<open>re.MULTILINE\<close>: the end of the string, or a newline just before it.\<close>

definition at_end :: "string \<Rightarrow> bool" where
  "at_end r \<longleftrightarrow> r = [] \<or> r = [CHR 0x0A]"

text \<open>
  \<^verbatim>\<open>pattern_die_roll = re.compile(r'^([+-]?\d+)d(\d+)$')\<close>, used through \<^verbatim>\<open>match\<close>: the
  groups 1 and 2 of the match. Each \<^verbatim>\<open>\d+\<close> must take its whole run of digits, since what
  follows it (\<^verbatim>\<open>d\<close>, the end) is not a digit.
\<close>

definition pattern_die_roll_match :: "string \<Rightarrow> (string \<times> string) option" where
  "pattern_die_roll_match seg =
     (let (sg, r1) = optional_sign seg;
          ds1 = takeWhile is_digit r1; r2 = dropWhile is_digit r1
      in if ds1 = [] then None
         else (case r2 of
                 [] \<Rightarrow> None
               | c # r3 \<Rightarrow>
                   if c = CHR ''d'' then
                     (let ds2 = takeWhile is_digit r3; r4 = dropWhile is_digit r3
                      in if ds2 \<noteq> [] \<and> at_end r4 then Some (sg @ ds1, ds2) else None)
                   else None))"

text \<open>
  \<^verbatim>\<open>pattern_die_bonus = re.compile(r'^([+-]?\d+)$')\<close>, used through \<^verbatim>\<open>match\<close>: group 1.
\<close>

definition pattern_die_bonus_match :: "string \<Rightarrow> string option" where
  "pattern_die_bonus_match seg =
     (let (sg, r1) = optional_sign seg;
          ds1 = takeWhile is_digit r1; r2 = dropWhile is_digit r1
      in if ds1 \<noteq> [] \<and> at_end r2 then Some (sg @ ds1) else None)"

subsection \<open>The constructor\<close>

text \<open>The inner class \<^verbatim>\<open>Die\<close>; its field \<^verbatim>\<open>size\<close> is \<open>die_size\<close> here.\<close>

record Die =
  quantity :: pyfloat
  die_size :: pyfloat

text \<open>\<^verbatim>\<open>"".join(dice_string.split())\<close>: the string without its whitespace.\<close>

definition strip_whitespace :: "string \<Rightarrow> string" where
  "strip_whitespace s = filter (\<lambda>c. \<not> is_space c) s"

text \<open>
  The loop of \<^verbatim>\<open>__init__\<close> over the segments: each one is appended to \<^verbatim>\<open>dice_bag\<close> as a die
  roll or as a bonus (a roll of dice of size \<^verbatim>\<open>1.0\<close>), and the first one that is neither
  raises.
\<close>

fun init_loop :: "string list \<Rightarrow> Die list \<Rightarrow> error + Die list" where
  "init_loop [] dice_bag = Inr dice_bag"
| "init_loop (seg # segs) dice_bag =
     (case pattern_die_roll_match seg of
        Some (g1, g2) \<Rightarrow>
          init_loop segs (dice_bag @ [\<lparr>quantity = py_float g1, die_size = py_float g2\<rparr>])
      | None \<Rightarrow>
          (case pattern_die_bonus_match seg of
             Some g1 \<Rightarrow>
               init_loop segs (dice_bag @ [\<lparr>quantity = py_float g1, die_size = Finite 2\<rparr>])
           | None \<Rightarrow> Inl (UnsupportedSegment seg)))"

text \<open>\<^verbatim>\<open>DiceBag.__init__\<close>: the value is the list \<^verbatim>\<open>self.dice_bag\<close> of the new object.\<close>

definition DiceBag_init :: "string \<Rightarrow> error + Die list" where
  "DiceBag_init dice_string =
     (case pattern_valid_dice_match dice_string of
        None \<Rightarrow> Inl (InvalidDiceString dice_string)
      | Some m \<Rightarrow>
          init_loop (pattern_dice_segment_finditer (strip_whitespace dice_string)) [])"

subsection \<open>The evaluation methods\<close>

text \<open>\<^verbatim>\<open>average\<close>: the float accumulated by the loop, then \<^verbatim>\<open>int(val)\<close>.\<close>

definition average_val :: "Die list \<Rightarrow> pyfloat" where
  "average_val dice_bag =
     foldl (\<lambda>val die. fadd val (fhalf (fmul (quantity die) (fadd (Finite 2) (die_size die)))))
       (Finite 0) dice_bag"

definition average :: "Die list \<Rightarrow> error + int" where
  "average dice_bag = py_int (average_val dice_bag)"

text \<open>\<^verbatim>\<open>minimum\<close>.\<close>

definition minimum_val :: "Die list \<Rightarrow> pyfloat" where
  "minimum_val dice_bag =
     foldl (\<lambda>val die.
         if fge0 (quantity die) then fadd val (fmul (quantity die) (Finite 2))
         else fadd val (fmul (quantity die) (die_size die)))
       (Finite 0) dice_bag"

definition minimum :: "Die list \<Rightarrow> error + int" where
  "minimum dice_bag = py_int (minimum_val dice_bag)"

text \<open>\<^verbatim>\<open>maximum\<close>.\<close>

definition maximum_val :: "Die list \<Rightarrow> pyfloat" where
  "maximum_val dice_bag =
     foldl (\<lambda>val die.
         if fge0 (quantity die) then fadd val (fmul (quantity die) (die_size die))
         else fadd val (fmul (quantity die) (Finite 2)))
       (Finite 0) dice_bag"

definition maximum :: "Die list \<Rightarrow> error + int" where
  "maximum dice_bag = py_int (maximum_val dice_bag)"

text \<open>
  \<^verbatim>\<open>shake\<close> draws from the global random generator. The generator is a parameter here:
  \<open>draws k\<close> is the raw natural number behind the \<open>k\<close>-th draw, and the state threaded
  through the loops is the running total \<^verbatim>\<open>val\<close> with the number of draws made so far.
  \<^verbatim>\<open>randrange(s)\<close> raises for \<open>s \<le> 0\<close> and returns a number from \<open>0\<close> to \<open>s - 1\<close>
  otherwise; every sequence of such numbers is the outcome for some \<open>draws\<close>.
\<close>

definition randrange :: "(nat \<Rightarrow> nat) \<Rightarrow> int \<Rightarrow> nat \<Rightarrow> error + int \<times> nat" where
  "randrange draws s k = (if s \<le> 0 then Inl EmptyRange else Inr (int (draws k) mod s, Suc k))"

text \<open>\<^verbatim>\<open>for i in range(q): val += randrange(s) + 1\<close>\<close>

fun add_rolls :: "(nat \<Rightarrow> nat) \<Rightarrow> int \<Rightarrow> nat \<Rightarrow> int \<times> nat \<Rightarrow> error + int \<times> nat" where
  "add_rolls draws s 0 st = Inr st"
| "add_rolls draws s (Suc n) (val, k) =
     (case randrange draws s k of
        Inl e \<Rightarrow> Inl e
      | Inr (r, k') \<Rightarrow> add_rolls draws s n (val + (r + 1), k'))"

text \<open>\<^verbatim>\<open>for i in range(abs(q)): val -= randrange(s) + 1\<close>\<close>

fun sub_rolls :: "(nat \<Rightarrow> nat) \<Rightarrow> int \<Rightarrow> nat \<Rightarrow> int \<times> nat \<Rightarrow> error + int \<times> nat" where
  "sub_rolls draws s 0 st = Inr st"
| "sub_rolls draws s (Suc n) (val, k) =
     (case randrange draws s k of
        Inl e \<Rightarrow> Inl e
      | Inr (r, k') \<Rightarrow> sub_rolls draws s n (val - (r + 1), k'))"

fun shake_loop :: "(nat \<Rightarrow> nat) \<Rightarrow> Die list \<Rightarrow> int \<times> nat \<Rightarrow> error + int" where
  "shake_loop draws [] (val, k) = Inr val"
| "shake_loop draws (die # dice) (val, k) =
     (case py_int (quantity die) of
        Inl e \<Rightarrow> Inl e
      | Inr q \<Rightarrow>
          (case py_int (die_size die) of
             Inl e \<Rightarrow> Inl e
           | Inr s \<Rightarrow>
               if 0 < q then
                 (case add_rolls draws s (nat q) (val, k) of
                    Inl e \<Rightarrow> Inl e
                  | Inr st \<Rightarrow> shake_loop draws dice st)
               else if q < 0 then
                 (case sub_rolls draws s (nat \<bar>q\<bar>) (val, k) of
                    Inl e \<Rightarrow> Inl e
                  | Inr st \<Rightarrow> shake_loop draws dice st)
               else shake_loop draws dice (val, k)))"

definition shake :: "(nat \<Rightarrow> nat) \<Rightarrow> Die list \<Rightarrow> error + int" where
  "shake draws dice_bag = shake_loop draws dice_bag (0, 0)"

section \<open>Notions used in the statements\<close>

text \<open>
  Rounding of any integer to 53 significant bits: the sign is kept and the magnitude is
  rounded, so that \<^const>\<open>fround\<close> gives \<open>Finite (round_signed h)\<close> unless it overflows.
\<close>

definition round_signed :: "int \<Rightarrow> int" where
  "round_signed h = (if h < 0 then - round_sig (- h) else round_sig h)"

text \<open>The comparison \<^verbatim>\<open>x <= y\<close> of two floats, false when one is a NaN.\<close>

fun fle :: "pyfloat \<Rightarrow> pyfloat \<Rightarrow> bool" where
  "fle (Finite a) (Finite b) = (a \<le> b)"
| "fle NaN y = False"
| "fle x NaN = False"
| "fle NInf y = True"
| "fle x PInf = True"
| "fle PInf y = False"
| "fle x NInf = False"

text \<open>
  The floats that a run of digits can give: an infinity, or a float with an integer
  value (an even number of halves) that rounding leaves as it is and that is below the
  overflow threshold.
\<close>

fun integral :: "pyfloat \<Rightarrow> bool" where
  "integral (Finite h) = (even h \<and> round_signed h = h \<and> \<bar>h\<bar> < 2 ^ 1025)"
| "integral PInf = True"
| "integral NInf = True"
| "integral NaN = False"

text \<open>The die whose quantity and size are the floats of the integers \<open>q\<close> and \<open>s\<close>.\<close>

definition Die_of_ints :: "int \<times> int \<Rightarrow> Die" where
  "Die_of_ints = (\<lambda>(q, s). \<lparr>quantity = Finite (2 * q), die_size = Finite (2 * s)\<rparr>)"

text \<open>
  The float that one round of the loops of \<^verbatim>\<open>minimum\<close>, \<^verbatim>\<open>average\<close> and \<^verbatim>\<open>maximum\<close>
  adds to \<^verbatim>\<open>val\<close>.
\<close>

definition minimum_term :: "Die \<Rightarrow> pyfloat" where
  "minimum_term die =
     (if fge0 (quantity die) then fmul (quantity die) (Finite 2)
      else fmul (quantity die) (die_size die))"

definition average_term :: "Die \<Rightarrow> pyfloat" where
  "average_term die = fhalf (fmul (quantity die) (fadd (Finite 2) (die_size die)))"

definition maximum_term :: "Die \<Rightarrow> pyfloat" where
  "maximum_term die =
     (if fge0 (quantity die) then fmul (quantity die) (die_size die)
      else fmul (quantity die) (Finite 2))"

text \<open>
  The least and the greatest total of the dice \<open>q\<close>d\<open>s\<close> of a list, in exact integer
  arithmetic.
\<close>

definition exact_minimum :: "(int \<times> int) list \<Rightarrow> int" where
  "exact_minimum ts = (\<Sum>(q, s)\<leftarrow>ts. if 0 \<le> q then q else q * s)"

definition exact_maximum :: "(int \<times> int) list \<Rightarrow> int" where
  "exact_maximum ts = (\<Sum>(q, s)\<leftarrow>ts. if 0 \<le> q then q * s else q)"

text \<open>
  The size that a segment stands for: for a die roll, the float nearest to the decimal
  number after the \<^verbatim>\<open>d\<close> (that number itself up to \<open>2^53\<close>, an infinity from
  \<open>2^1024 - 2^970\<close> on); for a bonus, which has no \<^verbatim>\<open>d\<close>, the float \<open>1.0\<close>.
\<close>

definition sides_of_segment :: "string \<Rightarrow> pyfloat" where
  "sides_of_segment seg =
     (if CHR ''d'' \<in> set seg
      then fround (2 * decimal (tl (dropWhile (\<lambda>c. c \<noteq> CHR ''d'') seg)))
      else Finite 2)"


section \<open>Properties\<close>

subsection \<open>Bit lengths\<close>

lemma bit_length_nonpos: "n \<le> 0 \<Longrightarrow> bit_length n = 0"
  by (simp add: bit_length.simps)

lemma bit_length_pos: "0 < n \<Longrightarrow> bit_length n = Suc (bit_length (n div 2))"
  by (subst bit_length.simps) simp

lemma bit_length_upper: "0 \<le> n \<Longrightarrow> n < 2 ^ bit_length n"
proof (induction n rule: bit_length.induct)
  case (1 n)
  show ?case
  proof (cases "n \<le> 0")
    case True
    with 1 show ?thesis by (simp add: bit_length_nonpos)
  next
    case False
    then have "n div 2 < 2 ^ bit_length (n div 2)" using 1 by simp
    then have "n < 2 * 2 ^ bit_length (n div 2)" by linarith
    with False show ?thesis by (simp add: bit_length_pos)
  qed
qed

lemma bit_length_lower: "0 < n \<Longrightarrow> 2 ^ (bit_length n - 1) \<le> n"
proof (induction n rule: bit_length.induct)
  case (1 n)
  show ?case
  proof (cases "n div 2 \<le> 0")
    case True
    with 1 have "n = 1" by linarith
    then show ?thesis by (simp add: bit_length_pos bit_length_nonpos)
  next
    case False
    then have pos: "0 < n div 2" by simp
    with 1 have ih: "2 ^ (bit_length (n div 2) - 1) \<le> n div 2" by simp
    have "bit_length (n div 2) \<noteq> 0" using pos by (simp add: bit_length_pos)
    then have "(2::int) ^ bit_length (n div 2) = 2 * 2 ^ (bit_length (n div 2) - 1)"
      by (cases "bit_length (n div 2)") simp_all
    with ih have "2 ^ bit_length (n div 2) \<le> n" by linarith
    with 1 show ?thesis by (simp add: bit_length_pos)
  qed
qed

lemma pow2_less_D: "(2::int) ^ m < 2 ^ n \<Longrightarrow> m < n"
  by simp

lemma bit_length_eq:
  assumes "2 ^ k \<le> n" "n < 2 ^ Suc k"
  shows "bit_length n = Suc k"
proof -
  have pos: "0 < n" using assms(1) by (smt (verit) zero_less_power)
  have "(2::int) ^ k < 2 ^ bit_length n"
    using assms(1) bit_length_upper [of n] pos by linarith
  then have a: "k < bit_length n" by (rule pow2_less_D)
  have "(2::int) ^ (bit_length n - 1) < 2 ^ Suc k"
    using assms(2) bit_length_lower [OF pos] by linarith
  then have "bit_length n - 1 < Suc k" by (rule pow2_less_D)
  with a show ?thesis by linarith
qed

lemma bit_length_le:
  assumes "n < 2 ^ k"
  shows "bit_length n \<le> k"
proof (cases "0 < n")
  case True
  have "(2::int) ^ (bit_length n - 1) < 2 ^ k"
    using assms bit_length_lower [OF True] by linarith
  then have "bit_length n - 1 < k" by (rule pow2_less_D)
  then show ?thesis by linarith
next
  case False
  then show ?thesis by (simp add: bit_length_nonpos)
qed

lemma round_sig_small: "a < 2 ^ 53 \<Longrightarrow> round_sig a = a"
  using bit_length_le [of a 53] by (simp add: round_sig_def)

text \<open>The shape of a rounding that drops bits.\<close>

lemma round_sig_big:
  assumes "2 ^ (52 + e) \<le> a" "a < 2 ^ (53 + e)" "0 < e"
  shows "round_sig a =
    (if 2 ^ (e - 1) < a mod 2 ^ e \<or> (a mod 2 ^ e = 2 ^ (e - 1) \<and> odd (a div 2 ^ e))
     then a div 2 ^ e + 1 else a div 2 ^ e) * 2 ^ e"
proof -
  have "bit_length a = Suc (52 + e)"
    using assms by (intro bit_length_eq) simp_all
  then have "bit_length a - 53 = e" by simp
  with assms(3) show ?thesis by (simp add: round_sig_def Let_def)
qed

lemma exponent_cases:
  assumes "2 ^ 53 \<le> (a::int)"
  obtains e where "0 < e" "2 ^ (52 + e) \<le> a" "a < 2 ^ (53 + e)"
proof -
  have pos: "0 < a" using assms by (smt (verit) zero_less_power)
  define e where "e = bit_length a - 53"
  have "(2::int) ^ 53 < 2 ^ bit_length a" using assms bit_length_upper [of a] pos by linarith
  then have "53 < bit_length a" by (rule pow2_less_D)
  then have bl: "bit_length a = 53 + e" "0 < e" by (simp_all add: e_def)
  have "2 ^ (52 + e) \<le> a" using bit_length_lower [OF pos] bl by simp
  moreover have "a < 2 ^ (53 + e)" using bit_length_upper [of a] pos bl by simp
  ultimately show ?thesis using that bl by blast
qed

subsection \<open>Rounding to 53 significant bits\<close>

text \<open>One rounding step at a fixed unit \<open>P\<close> with half unit \<open>H\<close>.\<close>

lemma round_step_mono:
  fixes a b P H :: int
  assumes P: "0 < P" and ab: "a \<le> b"
  shows "(if H < a mod P \<or> (a mod P = H \<and> odd (a div P)) then a div P + 1 else a div P) * P
       \<le> (if H < b mod P \<or> (b mod P = H \<and> odd (b div P)) then b div P + 1 else b div P) * P"
    (is "?ra * P \<le> ?rb * P")
proof -
  have q: "a div P \<le> b div P" using ab P by (rule zdiv_mono1)
  have "?ra \<le> ?rb"
  proof (cases "a div P = b div P")
    case True
    have "a = a div P * P + a mod P" "b = b div P * P + b mod P" by simp_all
    with True ab have "a mod P \<le> b mod P" by (metis add_le_cancel_left)
    with True show ?thesis by auto
  next
    case False
    with q have "a div P + 1 \<le> b div P" by simp
    then show ?thesis by auto
  qed
  with P show ?thesis by (simp add: mult_right_mono)
qed

lemma div_less_bound:
  fixes a P M :: int
  assumes "0 < P" "a < M * P"
  shows "a div P < M"
proof -
  have "a div P * P + a mod P = a" by simp
  moreover have "0 \<le> a mod P" using assms(1) by simp
  ultimately have "a div P * P < M * P" using assms(2) by linarith
  with assms(1) show ?thesis by (simp only: mult_less_cancel_right_pos)
qed

lemma div_pow2_bounds:
  fixes a :: int
  assumes "2 ^ (52 + e) \<le> a" "a < 2 ^ (53 + e)"
  shows "2 ^ 52 \<le> a div 2 ^ e" "a div 2 ^ e < 2 ^ 53"
proof -
  have "(2::int) ^ 52 * 2 ^ e \<le> a" using assms(1) by (simp add: power_add)
  then have "(2 ^ 52 * 2 ^ e) div 2 ^ e \<le> a div (2::int) ^ e" by (intro zdiv_mono1) simp_all
  then show "2 ^ 52 \<le> a div 2 ^ e" by simp
  have "a < 2 ^ 53 * (2::int) ^ e" using assms(2) by (simp add: power_add)
  then show "a div 2 ^ e < 2 ^ 53"
    by (intro div_less_bound) simp_all
qed

lemma round_sig_big_bounds:
  assumes "2 ^ (52 + e) \<le> a" "a < 2 ^ (53 + e)" "0 < e"
  shows "\<exists>m. round_sig a = m * 2 ^ e \<and> 2 ^ 52 \<le> m \<and> m \<le> 2 ^ 53"
proof -
  note b = div_pow2_bounds [OF assms(1,2)]
  show ?thesis
    unfolding round_sig_big [OF assms] using b by (auto split: if_splits)
qed

lemma round_sig_double:
  assumes "0 \<le> a"
  shows "round_sig (2 * a) = 2 * round_sig a"
proof -
  consider "a < 2 ^ 52" | "2 ^ 52 \<le> a" "a < 2 ^ 53" | "2 ^ 53 \<le> a" by linarith
  then show ?thesis
  proof cases
    case 1
    then have "2 * a < 2 ^ 53" "a < 2 ^ 53" by simp_all
    then show ?thesis by (simp only: round_sig_small)
  next
    case 2
    have "round_sig (2 * a) =
      (if 2 ^ (1 - 1) < (2 * a) mod 2 ^ 1 \<or> ((2 * a) mod 2 ^ 1 = 2 ^ (1 - 1) \<and> odd ((2 * a) div 2 ^ 1))
       then (2 * a) div 2 ^ 1 + 1 else (2 * a) div 2 ^ 1) * 2 ^ 1"
      using 2 by (intro round_sig_big) simp_all
    then have "round_sig (2 * a) = 2 * a" by simp
    with 2 show ?thesis by (simp add: round_sig_small)
  next
    case 3
    then obtain e where e: "0 < e" "2 ^ (52 + e) \<le> a" "a < 2 ^ (53 + e)"
      by (rule exponent_cases)
    have "(2::int) ^ (52 + Suc e) = 2 * 2 ^ (52 + e)" "(2::int) ^ (53 + Suc e) = 2 * 2 ^ (53 + e)"
      by (simp_all only: add_Suc_right power_Suc)
    then have e2: "2 ^ (52 + Suc e) \<le> 2 * a" "2 * a < 2 ^ (53 + Suc e)" using e by linarith+
    have m: "(2 * a) mod 2 ^ Suc e = 2 * (a mod 2 ^ e)" by simp
    have d: "(2 * a) div 2 ^ Suc e = a div 2 ^ e" by simp
    have h: "(2::int) ^ (Suc e - 1) = 2 * 2 ^ (e - 1)" using e(1) by (cases e) simp_all
    have "round_sig (2 * a) =
      (if 2 ^ (Suc e - 1) < (2 * a) mod 2 ^ Suc e
          \<or> ((2 * a) mod 2 ^ Suc e = 2 ^ (Suc e - 1) \<and> odd ((2 * a) div 2 ^ Suc e))
       then (2 * a) div 2 ^ Suc e + 1 else (2 * a) div 2 ^ Suc e) * 2 ^ Suc e"
      using e2 by (intro round_sig_big) simp_all
    also have "\<dots> = 2 * ((if 2 ^ (e - 1) < a mod 2 ^ e \<or> (a mod 2 ^ e = 2 ^ (e - 1) \<and> odd (a div 2 ^ e))
       then a div 2 ^ e + 1 else a div 2 ^ e) * 2 ^ e)"
      unfolding m d h by simp
    also have "\<dots> = 2 * round_sig a" using e by (simp only: round_sig_big)
    finally show ?thesis .
  qed
qed

lemma round_sig_pow2_mult:
  assumes "0 \<le> m"
  shows "round_sig (m * 2 ^ e) = round_sig m * 2 ^ e"
proof (induction e)
  case 0
  show ?case by simp
next
  case (Suc e)
  have "round_sig (m * 2 ^ Suc e) = round_sig (2 * (m * 2 ^ e))" by (simp add: mult.commute mult.left_commute)
  also have "\<dots> = 2 * round_sig (m * 2 ^ e)" using assms by (intro round_sig_double) simp
  finally show ?case using Suc by simp
qed

lemma round_sig_le_2p53: "a \<le> 2 ^ 53 \<Longrightarrow> round_sig a = a"
proof (cases "a < 2 ^ 53")
  case True
  then show ?thesis by (rule round_sig_small)
next
  case False
  assume "a \<le> 2 ^ 53"
  with False have a: "a = 2 * 2 ^ 52" by simp
  have "round_sig (2 * 2 ^ 52) = 2 * round_sig (2 ^ 52)" by (rule round_sig_double) simp
  also have "round_sig (2 ^ 52) = 2 ^ 52" by (rule round_sig_small) simp
  finally show ?thesis using a by simp
qed

lemma round_sig_idem: "round_sig (round_sig a) = round_sig a"
proof (cases "a < 2 ^ 53")
  case True
  then show ?thesis by (simp add: round_sig_small)
next
  case False
  then have "2 ^ 53 \<le> a" by simp
  then obtain e where e: "0 < e" "2 ^ (52 + e) \<le> a" "a < 2 ^ (53 + e)"
    by (rule exponent_cases)
  from round_sig_big_bounds [OF e(2,3,1)]
  obtain m where m: "round_sig a = m * 2 ^ e" "2 ^ 52 \<le> m" "m \<le> 2 ^ 53" by blast
  have "round_sig (m * 2 ^ e) = round_sig m * 2 ^ e" using m(2) by (intro round_sig_pow2_mult) simp
  also have "round_sig m = m" using m(3) by (rule round_sig_le_2p53)
  finally show ?thesis using m(1) by simp
qed

lemma round_sig_nonneg: "0 \<le> a \<Longrightarrow> 0 \<le> round_sig a"
proof (cases "a < 2 ^ 53")
  case True
  assume "0 \<le> a"
  with True show ?thesis by (simp add: round_sig_small)
next
  case False
  then have "2 ^ 53 \<le> a" by simp
  then obtain e where e: "0 < e" "2 ^ (52 + e) \<le> a" "a < 2 ^ (53 + e)"
    by (rule exponent_cases)
  from round_sig_big_bounds [OF e(2,3,1)]
  obtain m where m: "round_sig a = m * 2 ^ e" "2 ^ 52 \<le> m" "m \<le> 2 ^ 53" by blast
  then show ?thesis by simp
qed

lemma round_sig_even: "even a \<Longrightarrow> even (round_sig a)"
proof (cases "a < 2 ^ 53")
  case True
  assume "even a"
  with True show ?thesis by (simp add: round_sig_small)
next
  case False
  then have "2 ^ 53 \<le> a" by simp
  then obtain e where e: "0 < e" "2 ^ (52 + e) \<le> a" "a < 2 ^ (53 + e)"
    by (rule exponent_cases)
  from round_sig_big_bounds [OF e(2,3,1)]
  obtain m where m: "round_sig a = m * 2 ^ e" by blast
  with e(1) show ?thesis by simp
qed

lemma round_sig_mono:
  assumes "a \<le> b"
  shows "round_sig a \<le> round_sig b"
proof (cases "b < 2 ^ 53")
  case True
  with assms show ?thesis by (simp add: round_sig_small)
next
  case False
  then have "2 ^ 53 \<le> b" by simp
  then obtain eb where eb: "0 < eb" "2 ^ (52 + eb) \<le> b" "b < 2 ^ (53 + eb)"
    by (rule exponent_cases)
  from round_sig_big_bounds [OF eb(2,3,1)]
  obtain mb where mb: "round_sig b = mb * 2 ^ eb" "2 ^ 52 \<le> mb" by blast
  have lowb: "2 ^ (52 + eb) \<le> round_sig b"
  proof -
    have "(2::int) ^ 52 * 2 ^ eb \<le> mb * 2 ^ eb" using mb(2) by (intro mult_right_mono) simp_all
    then show ?thesis using mb(1) by (simp add: power_add)
  qed
  show ?thesis
  proof (cases "a < 2 ^ (52 + eb)")
    case True
    have "round_sig a \<le> 2 ^ (52 + eb)"
    proof (cases "a < 2 ^ 53")
      case True
      then have "round_sig a = a" by (rule round_sig_small)
      with \<open>a < 2 ^ (52 + eb)\<close> show ?thesis by simp
    next
      case False
      then have "2 ^ 53 \<le> a" by simp
      then obtain ea where ea: "0 < ea" "2 ^ (52 + ea) \<le> a" "a < 2 ^ (53 + ea)"
        by (rule exponent_cases)
      from round_sig_big_bounds [OF ea(2,3,1)]
      obtain ma where ma: "round_sig a = ma * 2 ^ ea" "ma \<le> 2 ^ 53" by blast
      have "(2::int) ^ (52 + ea) < 2 ^ (52 + eb)" using ea(2) True by linarith
      then have "52 + ea < 52 + eb" by (rule pow2_less_D)
      then have "53 + ea \<le> 52 + eb" by simp
      then have le: "(2::int) ^ (53 + ea) \<le> 2 ^ (52 + eb)" by (intro power_increasing) simp_all
      have "ma * 2 ^ ea \<le> 2 ^ 53 * (2::int) ^ ea" using ma(2) by (intro mult_right_mono) simp_all
      moreover have "2 ^ 53 * (2::int) ^ ea = 2 ^ (53 + ea)" by (simp only: power_add)
      ultimately show ?thesis using le ma(1) by linarith
    qed
    with lowb show ?thesis by linarith
  next
    case False
    then have a: "2 ^ (52 + eb) \<le> a" "a < 2 ^ (53 + eb)" using assms eb(3) by simp_all
    have P: "(0::int) < 2 ^ eb" by simp
    show ?thesis
      unfolding round_sig_big [OF a eb(1)] round_sig_big [OF eb(2,3,1)]
      using P assms by (rule round_step_mono)
  qed
qed

subsection \<open>Rounding with a sign\<close>

lemma round_signed_abs: "round_sig \<bar>h\<bar> = \<bar>round_signed h\<bar>"
proof (cases "h < 0")
  case True
  then have "0 \<le> round_sig (- h)" by (intro round_sig_nonneg) simp
  with True show ?thesis by (simp add: round_signed_def)
next
  case False
  then have "0 \<le> round_sig h" by (intro round_sig_nonneg) simp
  with False show ?thesis by (simp add: round_signed_def)
qed

lemma round_signed_sign:
  "0 \<le> h \<Longrightarrow> 0 \<le> round_signed h" "h \<le> 0 \<Longrightarrow> round_signed h \<le> 0"
proof -
  show "0 \<le> h \<Longrightarrow> 0 \<le> round_signed h"
    by (simp add: round_signed_def round_sig_nonneg)
  show "h \<le> 0 \<Longrightarrow> round_signed h \<le> 0"
    using round_sig_nonneg [of "- h"] round_sig_small [of 0]
    by (cases "h = 0") (simp_all add: round_signed_def)
qed

lemma round_signed_mono:
  assumes "a \<le> b"
  shows "round_signed a \<le> round_signed b"
proof -
  consider "b < 0" | "a < 0" "0 \<le> b" | "0 \<le> a" using assms by linarith
  then show ?thesis
  proof cases
    case 1
    then have "round_sig (- b) \<le> round_sig (- a)" using assms by (intro round_sig_mono) simp
    with 1 assms show ?thesis by (simp add: round_signed_def)
  next
    case 2
    then have "round_signed a \<le> 0" "0 \<le> round_signed b"
      by (simp_all add: round_signed_sign)
    then show ?thesis by linarith
  next
    case 3
    then show ?thesis using assms by (simp add: round_signed_def round_sig_mono)
  qed
qed

lemma round_signed_double: "round_signed (2 * h) = 2 * round_signed h"
proof (cases "h < 0")
  case True
  have "round_sig (2 * (- h)) = 2 * round_sig (- h)" using True by (intro round_sig_double) simp
  with True show ?thesis by (simp add: round_signed_def)
next
  case False
  then have "round_sig (2 * h) = 2 * round_sig h" by (intro round_sig_double) simp
  with False show ?thesis by (simp add: round_signed_def)
qed

lemma round_signed_exact: "\<bar>h\<bar> \<le> 2 ^ 53 \<Longrightarrow> round_signed h = h"
  by (cases "h < 0") (simp_all add: round_signed_def round_sig_le_2p53)

lemma round_signed_idem: "round_signed (round_signed h) = round_signed h"
proof (cases "h < 0")
  case True
  have nn: "0 \<le> round_sig (- h)" using True by (intro round_sig_nonneg) simp
  show ?thesis
  proof (cases "round_sig (- h) = 0")
    case z: True
    with True show ?thesis by (simp add: round_signed_def round_sig_small)
  next
    case False
    with nn have "- round_sig (- h) < 0" by simp
    with True show ?thesis by (simp add: round_signed_def round_sig_idem)
  qed
next
  case False
  then have "0 \<le> round_sig h" by (intro round_sig_nonneg) simp
  with False show ?thesis by (simp add: round_signed_def round_sig_idem)
qed

lemma round_signed_even: "even h \<Longrightarrow> even (round_signed h)"
  by (simp add: round_signed_def round_sig_even)

subsection \<open>The rounded float\<close>

lemma fround_cases:
  "fround h =
     (if 2 ^ 1025 \<le> round_sig \<bar>h\<bar> then (if h < 0 then NInf else PInf)
      else Finite (round_signed h))"
  by (simp add: fround_def Let_def round_signed_def)

lemma fround_Finite: "fround h = Finite m \<Longrightarrow> m = round_signed h"
  by (simp add: fround_cases split: if_splits)

lemma fround_exact:
  assumes "\<bar>h\<bar> \<le> 2 ^ 53"
  shows "fround h = Finite h"
proof -
  have "round_sig \<bar>h\<bar> = \<bar>h\<bar>" using assms by (rule round_sig_le_2p53)
  moreover have "(2::int) ^ 53 < 2 ^ 1025" by simp
  ultimately have "\<not> 2 ^ 1025 \<le> round_sig \<bar>h\<bar>" using assms by linarith
  then show ?thesis using assms by (simp only: fround_cases round_signed_exact if_False)
qed

lemma fround_exact_even:
  assumes "\<bar>n\<bar> \<le> 2 ^ 53"
  shows "fround (2 * n) = Finite (2 * n)"
proof -
  have "round_sig \<bar>2 * n\<bar> = 2 * round_sig \<bar>n\<bar>"
    using round_sig_double [of "\<bar>n\<bar>"] by (simp add: abs_mult)
  also have "round_sig \<bar>n\<bar> = \<bar>n\<bar>" using assms by (rule round_sig_le_2p53)
  finally have m: "round_sig \<bar>2 * n\<bar> = 2 * \<bar>n\<bar>" .
  have "(2::int) * 2 ^ 53 < 2 ^ 1025" by simp
  then have "\<not> 2 ^ 1025 \<le> round_sig \<bar>2 * n\<bar>" using assms m by linarith
  moreover have "round_signed (2 * n) = 2 * n"
    using assms by (simp only: round_signed_double round_signed_exact)
  ultimately show ?thesis by (simp only: fround_cases if_False)
qed

lemma fround_integral: "even h \<Longrightarrow> integral (fround h)"
  using round_signed_abs [of h]
  by (simp add: fround_cases round_signed_even round_signed_idem)

lemma integral_fround:
  assumes "integral (Finite h)"
  shows "fround h = Finite h"
proof -
  from assms have h: "round_signed h = h" "\<bar>h\<bar> < 2 ^ 1025" by simp_all
  then have "\<not> 2 ^ 1025 \<le> round_sig \<bar>h\<bar>" using round_signed_abs [of h] by simp
  with h(1) show ?thesis by (simp only: fround_cases if_False)
qed

lemma fround_nonneg: "0 \<le> h \<Longrightarrow> fge0 (fround h)"
  by (simp add: fround_cases round_signed_sign)

subsection \<open>Digits and their values\<close>

lemma is_digit_not_sign: "is_digit c \<Longrightarrow> c \<noteq> CHR ''+'' \<and> c \<noteq> CHR ''-'' \<and> \<not> is_sign c"
  by (auto simp: is_digit_def is_sign_def)

lemma digit_value_nonneg: "is_digit c \<Longrightarrow> 0 \<le> digit_value c"
  by (auto simp: is_digit_def digit_value_def)

lemma foldl_decimal_nonneg:
  "0 \<le> n \<Longrightarrow> \<forall>c\<in>set ds. is_digit c \<Longrightarrow> 0 \<le> foldl (\<lambda>n c. 10 * n + digit_value c) n ds"
proof (induction ds arbitrary: n)
  case Nil
  then show ?case by simp
next
  case (Cons c ds)
  have "0 \<le> 10 * n + digit_value c" using Cons.prems digit_value_nonneg [of c] by simp
  then show ?case using Cons by simp
qed

lemma decimal_nonneg: "\<forall>c\<in>set ds. is_digit c \<Longrightarrow> 0 \<le> decimal ds"
  unfolding decimal_def by (rule foldl_decimal_nonneg) simp_all

lemma py_float_digits:
  assumes "ds \<noteq> []" "\<forall>c\<in>set ds. is_digit c"
  shows "py_float ds = fround (2 * decimal ds)"
proof -
  from assms(1) obtain c cs where ds: "ds = c # cs" by (cases ds) auto
  with assms(2) have "is_digit c" by simp
  then have "c \<noteq> CHR ''+''" "c \<noteq> CHR ''-''" using is_digit_not_sign by blast+
  then show ?thesis by (simp add: ds)
qed

lemma py_float_signed_digits:
  assumes "is_sign c"
  shows "py_float (c # ds) = fround (2 * (if c = CHR ''-'' then - decimal ds else decimal ds))"
  using assms by (auto simp: is_sign_def)

lemma optional_sign_cases:
  assumes "optional_sign seg = (sg, r)"
  shows "(sg = [] \<and> r = seg) \<or> (\<exists>c. is_sign c \<and> sg = [c] \<and> seg = c # r)"
  using assms by (cases seg) (auto split: if_splits)

text \<open>The float of group 1: a sign or none, then the digits taken by \<^verbatim>\<open>\d+\<close>.\<close>

lemma py_float_group1:
  assumes "optional_sign seg = (sg, r)" "takeWhile is_digit r \<noteq> []"
  shows "\<exists>n. py_float (sg @ takeWhile is_digit r) = fround (2 * n)"
proof -
  have digits: "\<forall>c\<in>set (takeWhile is_digit r). is_digit c" by (auto dest: set_takeWhileD)
  from optional_sign_cases [OF assms(1)] show ?thesis
  proof
    assume "sg = [] \<and> r = seg"
    then show ?thesis using py_float_digits [OF assms(2) digits] by auto
  next
    assume "\<exists>c. is_sign c \<and> sg = [c] \<and> seg = c # r"
    then obtain c where c: "is_sign c" "sg = [c]" by blast
    have "py_float (c # takeWhile is_digit r) =
        fround (2 * (if c = CHR ''-'' then - decimal (takeWhile is_digit r)
                     else decimal (takeWhile is_digit r)))"
      using c(1) by (rule py_float_signed_digits)
    then have "\<exists>n. py_float (c # takeWhile is_digit r) = fround (2 * n)" by (rule exI)
    with c(2) show ?thesis by (simp del: py_float.simps)
  qed
qed

lemma py_float_group2:
  assumes "takeWhile is_digit r \<noteq> []"
  shows "\<exists>n\<ge>0. py_float (takeWhile is_digit r) = fround (2 * n)"
proof -
  have digits: "\<forall>c\<in>set (takeWhile is_digit r). is_digit c" by (auto dest: set_takeWhileD)
  from py_float_digits [OF assms digits] decimal_nonneg [OF digits] show ?thesis by blast
qed

lemma die_roll_floats:
  assumes "pattern_die_roll_match seg = Some (g1, g2)"
  shows "integral (py_float g1) \<and> integral (py_float g2) \<and> fge0 (py_float g2)"
proof -
  obtain sg r1 where os: "optional_sign seg = (sg, r1)" by (cases "optional_sign seg")
  from assms os have g1: "g1 = sg @ takeWhile is_digit r1" and ne1: "takeWhile is_digit r1 \<noteq> []"
    by (auto simp: pattern_die_roll_match_def Let_def split: if_splits list.splits)
  from assms os obtain r3 where g2: "g2 = takeWhile is_digit r3" and ne2: "takeWhile is_digit r3 \<noteq> []"
    by (auto simp: pattern_die_roll_match_def Let_def split: if_splits list.splits)
  from py_float_group1 [OF os ne1] g1 obtain n where "py_float g1 = fround (2 * n)" by auto
  moreover from py_float_group2 [OF ne2] g2 obtain m where "0 \<le> m" "py_float g2 = fround (2 * m)"
    by auto
  ultimately show ?thesis by (simp add: fround_integral fround_nonneg)
qed

lemma die_bonus_floats:
  assumes "pattern_die_bonus_match seg = Some g1"
  shows "integral (py_float g1)"
proof -
  obtain sg r1 where os: "optional_sign seg = (sg, r1)" by (cases "optional_sign seg")
  from assms os have g1: "g1 = sg @ takeWhile is_digit r1" and ne1: "takeWhile is_digit r1 \<noteq> []"
    by (auto simp: pattern_die_bonus_match_def Let_def split: if_splits)
  from py_float_group1 [OF os ne1] g1 obtain n where "py_float g1 = fround (2 * n)" by auto
  then show ?thesis by (simp add: fround_integral)
qed

subsection \<open>The dice built by the constructor\<close>

lemma integral_one: "integral (Finite 2)"
  by (simp add: round_signed_exact)

lemma init_loop_dice:
  assumes "init_loop segs bag0 = Inr bag"
    and "\<forall>d\<in>set bag0. integral (quantity d) \<and> integral (die_size d) \<and> fge0 (die_size d)"
  shows "\<forall>d\<in>set bag. integral (quantity d) \<and> integral (die_size d) \<and> fge0 (die_size d)"
  using assms
proof (induction segs arbitrary: bag0)
  case Nil
  then show ?case by simp
next
  case (Cons seg segs)
  show ?case
  proof (cases "pattern_die_roll_match seg")
    case (Some g)
    obtain g1 g2 where g: "g = (g1, g2)" by (cases g)
    from Some g Cons.prems(1)
    have run: "init_loop segs (bag0 @ [\<lparr>quantity = py_float g1, die_size = py_float g2\<rparr>]) = Inr bag"
      by simp
    from Some g have "integral (py_float g1) \<and> integral (py_float g2) \<and> fge0 (py_float g2)"
      by (intro die_roll_floats) simp
    with Cons.prems(2) show ?thesis by (intro Cons.IH [OF run]) auto
  next
    case None
    show ?thesis
    proof (cases "pattern_die_bonus_match seg")
      case (Some g1)
      from None Some Cons.prems(1)
      have run: "init_loop segs (bag0 @ [\<lparr>quantity = py_float g1, die_size = Finite 2\<rparr>]) = Inr bag"
        by simp
      from Some have "integral (py_float g1)" by (rule die_bonus_floats)
      with Cons.prems(2) integral_one show ?thesis by (intro Cons.IH [OF run]) auto
    next
      case n2: None
      with None Cons.prems(1) show ?thesis by simp
    qed
  qed
qed

lemma DiceBag_init_dice:
  assumes "DiceBag_init dice_string = Inr bag" "d \<in> set bag"
  shows "integral (quantity d) \<and> integral (die_size d) \<and> fge0 (die_size d)"
proof -
  from assms(1)
  have "init_loop (pattern_dice_segment_finditer (strip_whitespace dice_string)) [] = Inr bag"
    by (simp add: DiceBag_init_def split: option.splits)
  from init_loop_dice [OF this] assms(2) show ?thesis by simp
qed

lemma init_loop_length:
  "init_loop segs bag0 = Inr bag \<Longrightarrow> length bag = length bag0 + length segs"
proof (induction segs arbitrary: bag0)
  case Nil
  then show ?case by simp
next
  case (Cons seg segs)
  then show ?case by (fastforce split: option.splits)
qed

subsection \<open>The segments\<close>

lemma finditer_nonempty:
  "\<exists>c\<in>set xs. \<not> is_sign c \<Longrightarrow> pattern_dice_segment_finditer xs \<noteq> []"
proof (induction xs rule: pattern_dice_segment_finditer.induct)
  case 1
  then show ?case by simp
next
  case (2 c cs)
  show ?case
  proof (cases "is_sign c \<and> takeWhile (\<lambda>x. \<not> is_sign x) cs = []")
    case True
    with "2.prems" have "\<exists>c\<in>set cs. \<not> is_sign c" by auto
    with True "2.IH"(1) show ?thesis by simp
  next
    case False
    then show ?thesis by (auto split: list.splits)
  qed
qed

lemma takeWhile_append_stop:
  "takeWhile P ys = [] \<Longrightarrow> takeWhile P (xs @ ys) = takeWhile P xs"
  by (induction xs) auto

lemma dropWhile_append_stop:
  "takeWhile P ys = [] \<Longrightarrow> dropWhile P (xs @ ys) = dropWhile P xs @ ys"
  by (induction xs) (auto simp: takeWhile_eq_Nil_iff dropWhile_eq_self_iff)

text \<open>A sign in front of a sign or of the end is no part of any match.\<close>

lemma finditer_skips_lone_sign:
  assumes "is_sign c" "takeWhile (\<lambda>x. \<not> is_sign x) ys = []"
  shows "pattern_dice_segment_finditer (xs @ c # ys) = pattern_dice_segment_finditer (xs @ ys)"
proof (induction xs rule: pattern_dice_segment_finditer.induct)
  case 1
  from assms show ?case by simp
next
  case (2 x xs)
  let ?P = "\<lambda>x. \<not> is_sign x"
  have stop: "takeWhile ?P (c # ys) = []" using assms(1) by simp
  have t1: "takeWhile ?P (xs @ c # ys) = takeWhile ?P xs"
    using stop by (rule takeWhile_append_stop)
  have t2: "takeWhile ?P (xs @ ys) = takeWhile ?P xs"
    using assms(2) by (rule takeWhile_append_stop)
  have d1: "dropWhile ?P (xs @ c # ys) = dropWhile ?P xs @ c # ys"
    using stop by (rule dropWhile_append_stop)
  have d2: "dropWhile ?P (xs @ ys) = dropWhile ?P xs @ ys"
    using assms(2) by (rule dropWhile_append_stop)
  show ?case
  proof (cases "is_sign x")
    case True
    show ?thesis
    proof (cases "takeWhile ?P xs")
      case Nil
      with True "2.IH"(1) t1 t2 show ?thesis by simp
    next
      case (Cons r rs)
      with True "2.IH"(2) t1 t2 d1 d2 show ?thesis by simp
    qed
  next
    case False
    with "2.IH"(3) t1 t2 d1 d2 show ?thesis by simp
  qed
qed

subsection \<open>Dice of size one\<close>

lemma add_rolls_size_one:
  "add_rolls draws 1 n (val, k) = Inr (val + int n, k + n)"
  by (induction n arbitrary: val k) (simp_all add: randrange_def)

lemma sub_rolls_size_one:
  "sub_rolls draws 1 n (val, k) = Inr (val - int n, k + n)"
  by (induction n arbitrary: val k) (simp_all add: randrange_def)

subsection \<open>The examples of the documentation\<close>

text \<open>
  Claim C8. The constructor accepts \<^verbatim>\<open>"3d6+1-2d2"\<close>; the bag is \<open>3d6\<close>, \<open>1d1\<close> and
  \<open>-2d2\<close>; its minimum is 0, its maximum is 17, and its average is 8: the float summed by
  \<^verbatim>\<open>average\<close> is \<open>10.5 + 1 - 3 = 8.5\<close> (17 halves), truncated once at the end.
\<close>

theorem C8_example_3d6_1_2d2:
  "DiceBag_init ''3d6+1-2d2'' =
     Inr [\<lparr>quantity = Finite 6, die_size = Finite 12\<rparr>,
          \<lparr>quantity = Finite 2, die_size = Finite 2\<rparr>,
          \<lparr>quantity = Finite (- 4), die_size = Finite 4\<rparr>]
   \<and> minimum [\<lparr>quantity = Finite 6, die_size = Finite 12\<rparr>,
          \<lparr>quantity = Finite 2, die_size = Finite 2\<rparr>,
          \<lparr>quantity = Finite (- 4), die_size = Finite 4\<rparr>] = Inr 0
   \<and> maximum [\<lparr>quantity = Finite 6, die_size = Finite 12\<rparr>,
          \<lparr>quantity = Finite 2, die_size = Finite 2\<rparr>,
          \<lparr>quantity = Finite (- 4), die_size = Finite 4\<rparr>] = Inr 17
   \<and> average_val [\<lparr>quantity = Finite 6, die_size = Finite 12\<rparr>,
          \<lparr>quantity = Finite 2, die_size = Finite 2\<rparr>,
          \<lparr>quantity = Finite (- 4), die_size = Finite 4\<rparr>] = Finite 17
   \<and> average [\<lparr>quantity = Finite 6, die_size = Finite 12\<rparr>,
          \<lparr>quantity = Finite 2, die_size = Finite 2\<rparr>,
          \<lparr>quantity = Finite (- 4), die_size = Finite 4\<rparr>] = Inr 8"
  by code_simp

text \<open>
  Claim C9. The constructor accepts \<^verbatim>\<open>"17"\<close>; the bag is the single die \<open>17d1\<close>; its
  average, minimum and maximum are 17, and \<^verbatim>\<open>shake\<close> returns 17 whatever the generator
  draws.
\<close>

theorem C9_example_17:
  "DiceBag_init ''17'' = Inr [\<lparr>quantity = Finite 34, die_size = Finite 2\<rparr>]
   \<and> average [\<lparr>quantity = Finite 34, die_size = Finite 2\<rparr>] = Inr 17
   \<and> minimum [\<lparr>quantity = Finite 34, die_size = Finite 2\<rparr>] = Inr 17
   \<and> maximum [\<lparr>quantity = Finite 34, die_size = Finite 2\<rparr>] = Inr 17
   \<and> (\<forall>draws. shake draws [\<lparr>quantity = Finite 34, die_size = Finite 2\<rparr>] = Inr 17)"
proof -
  have parse: "DiceBag_init ''17'' = Inr [\<lparr>quantity = Finite 34, die_size = Finite 2\<rparr>]"
    by code_simp
  have avg: "average [\<lparr>quantity = Finite 34, die_size = Finite 2\<rparr>] = Inr 17"
    by code_simp
  have mn: "minimum [\<lparr>quantity = Finite 34, die_size = Finite 2\<rparr>] = Inr 17"
    by code_simp
  have mx: "maximum [\<lparr>quantity = Finite 34, die_size = Finite 2\<rparr>] = Inr 17"
    by code_simp
  have sh: "shake draws [\<lparr>quantity = Finite 34, die_size = Finite 2\<rparr>] = Inr 17" for draws
    by (simp add: shake_def add_rolls_size_one)
  from parse avg mn mx sh show ?thesis by blast
qed

subsection \<open>The validity check\<close>

text \<open>
  Claim C5. The string \<^verbatim>\<open>"2x6"\<close> holds the character \<^verbatim>\<open>x\<close>, which is outside the class
  of \<^verbatim>\<open>pattern_valid_dice\<close>. The check of line 138 uses \<^verbatim>\<open>match\<close>, which is content
  with the prefix \<^verbatim>\<open>"2"\<close>, so the constructor does not raise the error of the invalid
  string: it goes on and raises the error of the unsupported segment.
\<close>

theorem C5_prefix_accepted_2x6:
  "\<not> valid_dice_char CHR ''x''
   \<and> pattern_valid_dice_match ''2x6'' = Some ''2''
   \<and> DiceBag_init ''2x6'' = Inl (UnsupportedSegment ''2x6'')"
  by code_simp

subsection \<open>The shape of a matched segment\<close>

lemma finditer_subset:
  "seg \<in> set (pattern_dice_segment_finditer xs) \<Longrightarrow> set seg \<subseteq> set xs"
proof (induction xs rule: pattern_dice_segment_finditer.induct)
  case 1
  then show ?case by simp
next
  case (2 c cs)
  let ?P = "\<lambda>x. \<not> is_sign x"
  have tw: "set (takeWhile ?P cs) \<subseteq> set cs" by (auto dest: set_takeWhileD)
  have dw: "set (dropWhile ?P cs) \<subseteq> set cs" by (auto dest: set_dropWhileD)
  show ?case
  proof (cases "is_sign c")
    case True
    show ?thesis
    proof (cases "takeWhile ?P cs")
      case Nil
      with True "2.prems" "2.IH"(1) show ?thesis by auto
    next
      case (Cons r rs)
      with True "2.prems"
      consider "seg = c # r # rs" | "seg \<in> set (pattern_dice_segment_finditer (dropWhile ?P cs))"
        by auto
      then show ?thesis
      proof cases
        case 1
        with tw Cons show ?thesis by auto
      next
        case 2
        with "2.IH"(2) [OF True Cons] dw show ?thesis by auto
      qed
    qed
  next
    case False
    with "2.prems"
    consider "seg = c # takeWhile ?P cs" | "seg \<in> set (pattern_dice_segment_finditer (dropWhile ?P cs))"
      by auto
    then show ?thesis
    proof cases
      case 1
      with tw show ?thesis by auto
    next
      case 2
      with "2.IH"(3) [OF False] dw show ?thesis by auto
    qed
  qed
qed

lemma segments_without_space:
  assumes "seg \<in> set (pattern_dice_segment_finditer (strip_whitespace dice_string))"
    and "c \<in> set seg"
  shows "\<not> is_space c"
  using finditer_subset [OF assms(1)] assms(2) by (auto simp: strip_whitespace_def)

lemma is_space_newline: "is_space (CHR 0x0A)"
  by code_simp

lemma at_end_without_space:
  assumes "at_end r" "\<forall>c\<in>set r. \<not> is_space c"
  shows "r = []"
proof (rule ccontr)
  assume "r \<noteq> []"
  with assms(1) have "r = [CHR 0x0A]" by (simp add: at_end_def)
  with assms(2) have "\<not> is_space (CHR 0x0A)" by simp
  then show False using is_space_newline by (rule notE)
qed

lemma not_d: "is_sign c \<or> is_digit c \<Longrightarrow> c \<noteq> CHR ''d''"
  by (auto simp: is_sign_def is_digit_def)

lemma die_roll_shape:
  assumes "pattern_die_roll_match seg = Some (g1, g2)" "\<forall>c\<in>set seg. \<not> is_space c"
  shows "\<exists>sg ds1. seg = sg @ ds1 @ CHR ''d'' # g2 \<and> (\<forall>c\<in>set sg. is_sign c)
           \<and> (\<forall>c\<in>set ds1. is_digit c) \<and> g2 \<noteq> [] \<and> (\<forall>c\<in>set g2. is_digit c)"
proof -
  obtain sg r1 where os: "optional_sign seg = (sg, r1)" by (cases "optional_sign seg")
  from optional_sign_cases [OF os] have seg: "seg = sg @ r1" and sg: "\<forall>c\<in>set sg. is_sign c"
    by auto
  from assms(1) os obtain r3 where r1: "dropWhile is_digit r1 = CHR ''d'' # r3"
    and g2: "g2 = takeWhile is_digit r3" "g2 \<noteq> []" and e: "at_end (dropWhile is_digit r3)"
    by (auto simp: pattern_die_roll_match_def Let_def split: if_splits list.splits)
  have "set (dropWhile is_digit r3) \<subseteq> set seg"
  proof -
    have "set (dropWhile is_digit r3) \<subseteq> set r3" by (auto dest: set_dropWhileD)
    also have "\<dots> \<subseteq> set (dropWhile is_digit r1)" by (auto simp: r1)
    also have "\<dots> \<subseteq> set r1" by (auto dest: set_dropWhileD)
    finally show ?thesis by (auto simp: seg)
  qed
  with assms(2) have "\<forall>c\<in>set (dropWhile is_digit r3). \<not> is_space c" by blast
  with e have "dropWhile is_digit r3 = []" by (rule at_end_without_space)
  then have "takeWhile is_digit r3 = r3"
    by (simp add: dropWhile_eq_Nil_conv takeWhile_eq_all_conv)
  then have "r3 = g2" unfolding g2(1) by (rule sym)
  with r1 have "takeWhile is_digit r1 @ dropWhile is_digit r1 = takeWhile is_digit r1 @ CHR ''d'' # g2"
    by simp
  then have "r1 = takeWhile is_digit r1 @ CHR ''d'' # g2"
    by (simp only: takeWhile_dropWhile_id)
  moreover have "\<forall>c\<in>set (takeWhile is_digit r1). is_digit c" by (auto dest: set_takeWhileD)
  moreover have "\<forall>c\<in>set g2. is_digit c" unfolding g2(1) by (auto dest: set_takeWhileD)
  ultimately show ?thesis using seg sg g2(2) by blast
qed

lemma die_roll_sides:
  assumes "pattern_die_roll_match seg = Some (g1, g2)" "\<forall>c\<in>set seg. \<not> is_space c"
  shows "py_float g2 = sides_of_segment seg"
proof -
  from die_roll_shape [OF assms] obtain sg ds1 where seg: "seg = sg @ ds1 @ CHR ''d'' # g2"
    and sg: "\<forall>c\<in>set sg. is_sign c" and ds1: "\<forall>c\<in>set ds1. is_digit c"
    and g2: "g2 \<noteq> []" "\<forall>c\<in>set g2. is_digit c" by blast
  have "\<forall>c\<in>set sg. c \<noteq> CHR ''d''" "\<forall>c\<in>set ds1. c \<noteq> CHR ''d''"
    using sg ds1 not_d by auto
  then have "dropWhile (\<lambda>c. c \<noteq> CHR ''d'') (sg @ ds1 @ CHR ''d'' # g2) = CHR ''d'' # g2"
    by (simp add: dropWhile_append2)
  then have "sides_of_segment seg = fround (2 * decimal g2)"
    by (simp add: sides_of_segment_def seg)
  with py_float_digits [OF g2] show ?thesis by simp
qed

lemma die_bonus_no_d:
  assumes "pattern_die_bonus_match seg = Some g1" "\<forall>c\<in>set seg. \<not> is_space c"
  shows "sides_of_segment seg = Finite 2"
proof -
  obtain sg r1 where os: "optional_sign seg = (sg, r1)" by (cases "optional_sign seg")
  from optional_sign_cases [OF os] have seg: "seg = sg @ r1" and sg: "\<forall>c\<in>set sg. is_sign c"
    by auto
  from assms(1) os have e: "at_end (dropWhile is_digit r1)"
    by (auto simp: pattern_die_bonus_match_def Let_def split: if_splits)
  have "set (dropWhile is_digit r1) \<subseteq> set seg" by (auto simp: seg dest: set_dropWhileD)
  with assms(2) have "\<forall>c\<in>set (dropWhile is_digit r1). \<not> is_space c" by blast
  with e have "dropWhile is_digit r1 = []" by (rule at_end_without_space)
  then have "\<forall>c\<in>set r1. is_digit c" by (simp add: dropWhile_eq_Nil_conv)
  with sg have "CHR ''d'' \<notin> set seg" using not_d unfolding seg by auto
  then show ?thesis by (simp add: sides_of_segment_def)
qed

lemma init_loop_sizes:
  assumes "init_loop segs bag0 = Inr bag" "\<forall>seg\<in>set segs. \<forall>c\<in>set seg. \<not> is_space c"
  shows "map die_size bag = map die_size bag0 @ map sides_of_segment segs"
  using assms
proof (induction segs arbitrary: bag0)
  case Nil
  then show ?case by simp
next
  case (Cons seg segs)
  from Cons.prems(2) have nospace: "\<forall>c\<in>set seg. \<not> is_space c"
    and rest: "\<forall>seg\<in>set segs. \<forall>c\<in>set seg. \<not> is_space c" by simp_all
  show ?case
  proof (cases "pattern_die_roll_match seg")
    case (Some g)
    obtain g1 g2 where g: "g = (g1, g2)" by (cases g)
    from Some g Cons.prems(1)
    have run: "init_loop segs (bag0 @ [\<lparr>quantity = py_float g1, die_size = py_float g2\<rparr>]) = Inr bag"
      by simp
    from Some g have "py_float g2 = sides_of_segment seg"
      using nospace by (intro die_roll_sides) simp_all
    with Cons.IH [OF run rest] show ?thesis by simp
  next
    case None
    show ?thesis
    proof (cases "pattern_die_bonus_match seg")
      case (Some g1)
      from None Some Cons.prems(1)
      have run: "init_loop segs (bag0 @ [\<lparr>quantity = py_float g1, die_size = Finite 2\<rparr>]) = Inr bag"
        by simp
      from die_bonus_no_d [OF Some nospace] Cons.IH [OF run rest] show ?thesis by simp
    next
      case n2: None
      with None Cons.prems(1) show ?thesis by simp
    qed
  qed
qed

subsection \<open>The sizes of the dice\<close>

text \<open>
  Claim C1, as stated, fails: the constructor accepts \<^verbatim>\<open>"1d0"\<close>, and the die it builds
  has the size \<open>0\<close>, so its size is not at least \<open>1\<close>.
\<close>

theorem C1_zero_sides_counterexample:
  "DiceBag_init ''1d0'' = Inr [\<lparr>quantity = Finite 2, die_size = Finite 0\<rparr>]
   \<and> \<not> fle (Finite 2) (die_size \<lparr>quantity = Finite 2, die_size = Finite 0\<rparr>)"
  by code_simp

text \<open>
  Claim C1, amended. For every string that the constructor accepts, the sizes of the dice
  of the bag are, segment by segment, the sizes that the segments stand for: for a die
  roll the float nearest to the number after the \<^verbatim>\<open>d\<close>, which is zero for a run of zeros,
  and \<open>1.0\<close> for a bonus. So no die has a negative size (\<^verbatim>\<open>die.size >= 0\<close> holds).
\<close>

theorem C1_sides_of_segments:
  assumes "DiceBag_init dice_string = Inr bag"
  shows "map die_size bag
           = map sides_of_segment (pattern_dice_segment_finditer (strip_whitespace dice_string))
       \<and> (\<forall>d\<in>set bag. fge0 (die_size d))"
proof -
  from assms
  have run: "init_loop (pattern_dice_segment_finditer (strip_whitespace dice_string)) [] = Inr bag"
    by (simp add: DiceBag_init_def split: option.splits)
  have ns: "\<forall>seg\<in>set (pattern_dice_segment_finditer (strip_whitespace dice_string)).
      \<forall>c\<in>set seg. \<not> is_space c"
    using segments_without_space by blast
  from init_loop_sizes [OF run ns] have "map die_size bag
      = map sides_of_segment (pattern_dice_segment_finditer (strip_whitespace dice_string))"
    by simp
  moreover have "\<forall>d\<in>set bag. fge0 (die_size d)"
    using DiceBag_init_dice [OF assms] by simp
  ultimately show ?thesis ..
qed

text \<open>The theorem of claim C1 at \<^verbatim>\<open>"2d6+3"\<close>, with the segments \<^verbatim>\<open>2d6\<close> and \<^verbatim>\<open>+3\<close>.\<close>

theorem C1_sides_of_segments_witness:
  "DiceBag_init ''2d6+3'' =
     Inr [\<lparr>quantity = Finite 4, die_size = Finite 12\<rparr>, \<lparr>quantity = Finite 6, die_size = Finite 2\<rparr>]
   \<and> pattern_dice_segment_finditer (strip_whitespace ''2d6+3'') = [''2d6'', ''+3'']
   \<and> map die_size [\<lparr>quantity = Finite 4, die_size = Finite 12\<rparr>, \<lparr>quantity = Finite 6, die_size = Finite 2\<rparr>]
       = map sides_of_segment [''2d6'', ''+3'']
   \<and> list_all (\<lambda>d. fge0 (die_size d))
        [\<lparr>quantity = Finite 4, die_size = Finite 12\<rparr>, \<lparr>quantity = Finite 6, die_size = Finite 2\<rparr>]"
proof -
  have run: "DiceBag_init ''2d6+3'' =
     Inr [\<lparr>quantity = Finite 4, die_size = Finite 12\<rparr>, \<lparr>quantity = Finite 6, die_size = Finite 2\<rparr>]"
    by code_simp
  have segs: "pattern_dice_segment_finditer (strip_whitespace ''2d6+3'') = [''2d6'', ''+3'']"
    by code_simp
  note inst = C1_sides_of_segments [OF run]
  have a: "map die_size [\<lparr>quantity = Finite 4, die_size = Finite 12\<rparr>, \<lparr>quantity = Finite 6, die_size = Finite 2\<rparr>]
       = map sides_of_segment [''2d6'', ''+3'']"
    using inst [THEN conjunct1] unfolding segs .
  have b: "list_all (\<lambda>d. fge0 (die_size d))
        [\<lparr>quantity = Finite 4, die_size = Finite 12\<rparr>, \<lparr>quantity = Finite 6, die_size = Finite 2\<rparr>]"
    using inst [THEN conjunct2] unfolding list_all_iff .
  show ?thesis by (rule conjI [OF run conjI [OF segs conjI [OF a b]]])
qed

subsection \<open>The length of the bag\<close>

text \<open>
  Claim C7, as stated, fails: the constructor accepts \<^verbatim>\<open>"+"\<close> and \<^verbatim>\<open>" "\<close>, and the bag
  is empty.
\<close>

theorem C7_empty_bag_counterexample:
  "DiceBag_init ''+'' = Inr [] \<and> DiceBag_init '' '' = Inr []"
  by code_simp

text \<open>
  Claim C7, amended. When the constructor accepts a string that holds a character that is
  neither whitespace nor a sign, the bag is not empty.
\<close>

theorem C7_bag_not_empty:
  assumes "DiceBag_init dice_string = Inr bag"
    and "c \<in> set dice_string" "\<not> is_space c" "\<not> is_sign c"
  shows "bag \<noteq> []"
proof -
  let ?segs = "pattern_dice_segment_finditer (strip_whitespace dice_string)"
  from assms(1) have run: "init_loop ?segs [] = Inr bag"
    by (simp add: DiceBag_init_def split: option.splits)
  from assms(2,3) have "c \<in> set (strip_whitespace dice_string)"
    by (simp add: strip_whitespace_def)
  with assms(4) have "?segs \<noteq> []" by (intro finditer_nonempty) blast
  moreover from init_loop_length [OF run] have "length bag = length ?segs" by simp
  ultimately show ?thesis by auto
qed

text \<open>The theorem of claim C7 at \<^verbatim>\<open>"17"\<close>.\<close>

theorem C7_bag_not_empty_witness:
  "DiceBag_init ''17'' = Inr [\<lparr>quantity = Finite 34, die_size = Finite 2\<rparr>]
   \<and> [\<lparr>quantity = Finite 34, die_size = Finite 2\<rparr>] \<noteq> []"
proof -
  have run: "DiceBag_init ''17'' = Inr [\<lparr>quantity = Finite 34, die_size = Finite 2\<rparr>]"
    by code_simp
  have c: "CHR ''1'' \<in> set ''17''" "\<not> is_space CHR ''1''" "\<not> is_sign CHR ''1''"
    by (simp_all add: is_space_def is_sign_def)
  from run C7_bag_not_empty [OF run c] show ?thesis by (rule conjI)
qed

subsection \<open>Signs with nothing after them\<close>

text \<open>
  Claim C6, as stated, fails: the constructor accepts \<^verbatim>\<open>"1--2"\<close> and \<^verbatim>\<open>"2d6+"\<close>; the
  bags are \<open>1d1, -2d1\<close> and \<open>2d6\<close>.
\<close>

theorem C6_lone_sign_counterexample:
  "DiceBag_init ''1--2'' =
     Inr [\<lparr>quantity = Finite 2, die_size = Finite 2\<rparr>, \<lparr>quantity = Finite (- 4), die_size = Finite 2\<rparr>]
   \<and> DiceBag_init ''2d6+'' = Inr [\<lparr>quantity = Finite 4, die_size = Finite 12\<rparr>]"
  by code_simp

text \<open>
  Claim C6, amended. A sign that is not the whole string and that is followed, whitespace
  apart, by another sign or by the end of the string is skipped: the constructor accepts
  the string exactly when it accepts the string without that sign, and the bag is the
  same.
\<close>

theorem C6_lone_sign_skipped:
  assumes "xs @ ys \<noteq> []" "is_sign c"
    and "strip_whitespace ys = [] \<or> is_sign (hd (strip_whitespace ys))"
  shows "DiceBag_init (xs @ c # ys) = Inr bag \<longleftrightarrow> DiceBag_init (xs @ ys) = Inr bag"
proof -
  have c_valid: "valid_dice_char c" using assms(2) by (simp add: valid_dice_char_def)
  have valid: "pattern_valid_dice_match (xs @ c # ys) = None
      \<longleftrightarrow> pattern_valid_dice_match (xs @ ys) = None"
  proof (cases xs)
    case (Cons x xs')
    then show ?thesis by (simp add: pattern_valid_dice_match_def split: list.splits)
  next
    case Nil
    with assms(1) obtain y ys' where ys: "ys = y # ys'" by (cases ys) auto
    have "valid_dice_char y"
    proof (cases "is_space y")
      case True
      then show ?thesis by (simp add: valid_dice_char_def)
    next
      case False
      then have "strip_whitespace ys = y # strip_whitespace ys'"
        by (simp add: ys strip_whitespace_def)
      with assms(3) show ?thesis by (simp add: valid_dice_char_def)
    qed
    with c_valid show ?thesis by (simp add: Nil ys pattern_valid_dice_match_def)
  qed
  have nospace: "\<not> is_space c" using assms(2) by (auto simp: is_sign_def is_space_def)
  have stop: "takeWhile (\<lambda>x. \<not> is_sign x) (strip_whitespace ys) = []"
    using assms(3) by (auto simp: takeWhile_eq_Nil_iff)
  have "pattern_dice_segment_finditer (strip_whitespace (xs @ c # ys))
      = pattern_dice_segment_finditer (strip_whitespace xs @ c # strip_whitespace ys)"
    using nospace by (simp add: strip_whitespace_def)
  also have "\<dots> = pattern_dice_segment_finditer (strip_whitespace xs @ strip_whitespace ys)"
    using assms(2) stop by (rule finditer_skips_lone_sign)
  also have "\<dots> = pattern_dice_segment_finditer (strip_whitespace (xs @ ys))"
    by (simp add: strip_whitespace_def)
  finally show ?thesis using valid
    by (auto simp: DiceBag_init_def split: option.splits)
qed

text \<open>The theorem of claim C6 at \<^verbatim>\<open>"1--2"\<close>, whose first \<^verbatim>\<open>-\<close> is skipped.\<close>

theorem C6_lone_sign_skipped_witness:
  "DiceBag_init ''1--2'' =
     Inr [\<lparr>quantity = Finite 2, die_size = Finite 2\<rparr>, \<lparr>quantity = Finite (- 4), die_size = Finite 2\<rparr>]
   \<and> DiceBag_init ''1-2'' =
     Inr [\<lparr>quantity = Finite 2, die_size = Finite 2\<rparr>, \<lparr>quantity = Finite (- 4), die_size = Finite 2\<rparr>]"
proof -
  have run: "DiceBag_init (''1'' @ ''-2'') =
     Inr [\<lparr>quantity = Finite 2, die_size = Finite 2\<rparr>, \<lparr>quantity = Finite (- 4), die_size = Finite 2\<rparr>]"
    by code_simp
  have h: "''1'' @ ''-2'' \<noteq> []" "is_sign CHR ''-''"
    "strip_whitespace ''-2'' = [] \<or> is_sign (hd (strip_whitespace ''-2''))"
    by (simp_all add: is_sign_def strip_whitespace_def is_space_def)
  from C6_lone_sign_skipped [OF h] run
  have "DiceBag_init (''1'' @ CHR ''-'' # ''-2'') =
     Inr [\<lparr>quantity = Finite 2, die_size = Finite 2\<rparr>, \<lparr>quantity = Finite (- 4), die_size = Finite 2\<rparr>]"
    by blast
  with run show ?thesis by simp
qed

subsection \<open>The floats stored in the dice\<close>

text \<open>
  Claim C10, as stated, fails: for the digit \<^verbatim>\<open>1\<close> followed by 309 zeros, which the
  constructor accepts, \<^verbatim>\<open>float\<close> overflows, the stored quantity is \<^verbatim>\<open>inf\<close>, which is no
  integer, and \<^verbatim>\<open>int()\<close> of it raises \<^verbatim>\<open>OverflowError\<close>.
\<close>

theorem C10_infinite_quantity_counterexample:
  "DiceBag_init (CHR ''1'' # replicate 309 CHR ''0'') = Inr [\<lparr>quantity = PInf, die_size = Finite 2\<rparr>]
   \<and> py_int (quantity \<lparr>quantity = PInf, die_size = Finite 2\<rparr>) = Inl IntOfInfinity"
  by code_simp

text \<open>
  Claim C10, amended. For every string that the constructor accepts, the quantity and the
  size of every die are an infinity or a float with an integer value \<open>n\<close>; for the latter
  \<^verbatim>\<open>int()\<close> returns \<open>n\<close>, and the float of \<open>n\<close> is the stored float again, so the coercions of
  \<^verbatim>\<open>shake\<close> do not change the value.
\<close>

theorem C10_stored_floats:
  assumes "DiceBag_init dice_string = Inr bag" "d \<in> set bag"
    and "x = quantity d \<or> x = die_size d"
  shows "x = PInf \<or> x = NInf \<or> (\<exists>n. x = Finite (2 * n) \<and> py_int x = Inr n \<and> fround (2 * n) = x)"
proof -
  from DiceBag_init_dice [OF assms(1,2)] assms(3) have int: "integral x" by auto
  show ?thesis
  proof (cases x)
    case (Finite h)
    with int have "even h" by simp
    then obtain n where n: "h = 2 * n" by (auto elim: evenE)
    have "- (2 * n) div 2 = - n" by arith
    then have "py_int (Finite (2 * n)) = Inr n" by simp
    moreover have "fround (2 * n) = Finite (2 * n)"
      using int Finite n by (intro integral_fround) simp
    ultimately show ?thesis using Finite n by blast
  next
    case NaN
    with int show ?thesis by simp
  qed simp_all
qed

text \<open>The theorem of claim C10 at \<^verbatim>\<open>"3d6"\<close> and the quantity of its die.\<close>

theorem C10_stored_floats_witness:
  "DiceBag_init ''3d6'' = Inr [\<lparr>quantity = Finite 6, die_size = Finite 12\<rparr>]
   \<and> (\<exists>n. Finite 6 = Finite (2 * n) \<and> py_int (Finite 6) = Inr n \<and> fround (2 * n) = Finite 6)"
proof -
  have run: "DiceBag_init ''3d6'' = Inr [\<lparr>quantity = Finite 6, die_size = Finite 12\<rparr>]"
    by code_simp
  have mem: "\<lparr>quantity = Finite 6, die_size = Finite 12\<rparr>
      \<in> set [\<lparr>quantity = Finite 6, die_size = Finite 12\<rparr>]"
    by simp
  have x: "Finite 6 = quantity \<lparr>quantity = Finite 6, die_size = Finite 12\<rparr>
      \<or> Finite 6 = die_size \<lparr>quantity = Finite 6, die_size = Finite 12\<rparr>"
    by simp
  from C10_stored_floats [OF run mem x]
  have "\<exists>n. Finite 6 = Finite (2 * n) \<and> py_int (Finite 6) = Inr n \<and> fround (2 * n) = Finite 6"
    by simp
  with run show ?thesis by (rule conjI)
qed

subsection \<open>The loops as sums of terms\<close>

lemma minimum_val_terms:
  "minimum_val bag = foldl (\<lambda>val die. fadd val (minimum_term die)) (Finite 0) bag"
proof -
  have "(\<lambda>val die. if fge0 (quantity die) then fadd val (fmul (quantity die) (Finite 2))
            else fadd val (fmul (quantity die) (die_size die)))
      = (\<lambda>val die. fadd val (minimum_term die))"
    by (intro ext) (simp add: minimum_term_def)
  then show ?thesis by (simp only: minimum_val_def)
qed

lemma maximum_val_terms:
  "maximum_val bag = foldl (\<lambda>val die. fadd val (maximum_term die)) (Finite 0) bag"
proof -
  have "(\<lambda>val die. if fge0 (quantity die) then fadd val (fmul (quantity die) (die_size die))
            else fadd val (fmul (quantity die) (Finite 2)))
      = (\<lambda>val die. fadd val (maximum_term die))"
    by (intro ext) (simp add: maximum_term_def)
  then show ?thesis by (simp only: maximum_val_def)
qed

lemma average_val_terms:
  "average_val bag = foldl (\<lambda>val die. fadd val (average_term die)) (Finite 0) bag"
  by (simp add: average_val_def average_term_def)

subsection \<open>Exact arithmetic below \<open>2^53\<close>\<close>

lemma abs_le_abs_mult:
  fixes q s :: int
  assumes "1 \<le> s"
  shows "\<bar>q\<bar> \<le> \<bar>q\<bar> * s"
  using assms mult_left_mono [of 1 s "\<bar>q\<bar>"] by simp

lemma minimum_term_exact:
  assumes "1 \<le> s" "\<bar>q\<bar> * s \<le> 2 ^ 53"
  shows "minimum_term (Die_of_ints (q, s)) = Finite (2 * (if 0 \<le> q then q else q * s))"
proof (cases "0 \<le> q")
  case True
  have "\<bar>q\<bar> \<le> 2 ^ 53" using abs_le_abs_mult [OF assms(1), of q] assms(2) by linarith
  then have "fround (2 * q) = Finite (2 * q)" by (rule fround_exact_even)
  with True show ?thesis by (simp add: minimum_term_def Die_of_ints_def)
next
  case False
  have "\<bar>q * s\<bar> \<le> 2 ^ 53" using assms by (simp add: abs_mult)
  then have "fround (2 * (q * s)) = Finite (2 * (q * s))" by (rule fround_exact_even)
  moreover have "2 * q * (2 * s) div 2 = 2 * (q * s)" by simp
  ultimately show ?thesis using False by (simp add: minimum_term_def Die_of_ints_def)
qed

lemma maximum_term_exact:
  assumes "1 \<le> s" "\<bar>q\<bar> * s \<le> 2 ^ 53"
  shows "maximum_term (Die_of_ints (q, s)) = Finite (2 * (if 0 \<le> q then q * s else q))"
proof (cases "0 \<le> q")
  case True
  have "\<bar>q * s\<bar> \<le> 2 ^ 53" using assms by (simp add: abs_mult)
  then have "fround (2 * (q * s)) = Finite (2 * (q * s))" by (rule fround_exact_even)
  moreover have "2 * q * (2 * s) div 2 = 2 * (q * s)" by simp
  ultimately show ?thesis using True by (simp add: maximum_term_def Die_of_ints_def)
next
  case False
  have "\<bar>q\<bar> \<le> 2 ^ 53" using abs_le_abs_mult [OF assms(1), of q] assms(2) by linarith
  then have "fround (2 * q) = Finite (2 * q)" by (rule fround_exact_even)
  with False show ?thesis by (simp add: maximum_term_def Die_of_ints_def)
qed

lemma average_term_exact:
  assumes "1 \<le> s" "s < 2 ^ 53" "\<bar>q\<bar> * (1 + s) \<le> 2 ^ 53"
  shows "average_term (Die_of_ints (q, s)) = Finite (q * (1 + s))"
proof -
  have "\<bar>1 + s\<bar> \<le> 2 ^ 53" using assms(1,2) by simp
  then have one: "fround (2 * (1 + s)) = Finite (2 * (1 + s))" by (rule fround_exact_even)
  have "\<bar>q * (1 + s)\<bar> \<le> 2 ^ 53" using assms(1,3) by (simp add: abs_mult)
  then have prod: "fround (2 * (q * (1 + s))) = Finite (2 * (q * (1 + s)))"
    by (rule fround_exact_even)
  have a: "2 + 2 * s = 2 * (1 + s)" by simp
  have b: "2 * q * (2 * (1 + s)) div 2 = 2 * (q * (1 + s))" by simp
  show ?thesis
    by (simp only: average_term_def Die_of_ints_def prod.case Die.simps fadd.simps a one
        fmul.simps b prod fhalf.simps nonzero_mult_div_cancel_left)
qed

text \<open>
  A sum of terms whose exact values stay below \<open>2^53\<close> units is exact; the unit \<open>c\<close> is
  a half (\<open>c = 1\<close>) or one (\<open>c = 2\<close>).
\<close>

lemma foldl_fadd_exact:
  assumes unit: "\<And>x. \<bar>x\<bar> \<le> 2 ^ 53 \<Longrightarrow> fround (c * x) = Finite (c * x)"
    and "\<And>t. t \<in> set ts \<Longrightarrow> term (mk t) = Finite (c * f t) \<and> \<bar>f t\<bar> \<le> w t"
    and "\<bar>acc\<bar> + (\<Sum>t\<leftarrow>ts. w t) \<le> 2 ^ 53"
  shows "foldl (\<lambda>val die. fadd val (term die)) (Finite (c * acc)) (map mk ts)
       = Finite (c * (acc + (\<Sum>t\<leftarrow>ts. f t)))"
  using assms(2,3)
proof (induction ts arbitrary: acc)
  case Nil
  then show ?case by simp
next
  case (Cons t ts)
  from Cons.prems(1) [of t] have t: "term (mk t) = Finite (c * f t)" "\<bar>f t\<bar> \<le> w t" by simp_all
  have nonneg: "0 \<le> (\<Sum>t\<leftarrow>ts. w t)"
  proof (rule sum_list_nonneg)
    fix x assume "x \<in> set (map w ts)"
    then obtain u where "u \<in> set ts" "x = w u" by auto
    with Cons.prems(1) [of u] show "0 \<le> x" by auto
  qed
  have small: "\<bar>acc + f t\<bar> \<le> 2 ^ 53" using t(2) nonneg Cons.prems(2) by simp
  have "fadd (Finite (c * acc)) (Finite (c * f t)) = fround (c * (acc + f t))"
    by (simp add: distrib_left)
  also have "\<dots> = Finite (c * (acc + f t))" using small by (rule unit)
  finally have step: "fadd (Finite (c * acc)) (Finite (c * f t)) = Finite (c * (acc + f t))" .
  have rest: "\<bar>acc + f t\<bar> + (\<Sum>t\<leftarrow>ts. w t) \<le> 2 ^ 53" using t(2) Cons.prems(2) by simp
  have "foldl (\<lambda>val die. fadd val (term die)) (Finite (c * (acc + f t))) (map mk ts)
      = Finite (c * (acc + f t + (\<Sum>t\<leftarrow>ts. f t)))"
    using Cons.prems(1) rest by (intro Cons.IH) simp_all
  with t(1) step show ?case by (simp add: add.assoc)
qed

lemma py_int_even: "py_int (Finite (2 * n)) = Inr n"
proof -
  have "- (2 * n) div 2 = - n" by arith
  then show ?thesis by simp
qed

lemma minimum_exact:
  assumes "\<forall>(q, s)\<in>set ts. 1 \<le> s" "(\<Sum>(q, s)\<leftarrow>ts. \<bar>q\<bar> * s) \<le> 2 ^ 53"
  shows "minimum (map Die_of_ints ts) = Inr (exact_minimum ts)"
proof -
  have "foldl (\<lambda>val die. fadd val (minimum_term die)) (Finite (2 * 0)) (map Die_of_ints ts)
      = Finite (2 * (0 + (\<Sum>t\<leftarrow>ts. case t of (q, s) \<Rightarrow> if 0 \<le> q then q else q * s)))"
  proof (rule foldl_fadd_exact [where w = "\<lambda>(q, s). \<bar>q\<bar> * s"])
    show "fround (2 * x) = Finite (2 * x)" if "\<bar>x\<bar> \<le> 2 ^ 53" for x
      using that by (rule fround_exact_even)
    show "minimum_term (Die_of_ints t)
          = Finite (2 * (case t of (q, s) \<Rightarrow> if 0 \<le> q then q else q * s))
        \<and> \<bar>case t of (q, s) \<Rightarrow> if 0 \<le> q then q else q * s\<bar> \<le> (case t of (q, s) \<Rightarrow> \<bar>q\<bar> * s)"
      if "t \<in> set ts" for t
    proof -
      obtain q s where t: "t = (q, s)" by (cases t)
      with that assms(1) have s: "1 \<le> s" by auto
      have "\<bar>q\<bar> * s \<le> (\<Sum>(q, s)\<leftarrow>ts. \<bar>q\<bar> * s)"
        using that t assms(1) by (intro member_le_sum_list) auto
      with assms(2) have b: "\<bar>q\<bar> * s \<le> 2 ^ 53" by linarith
      have "\<bar>if 0 \<le> q then q else q * s\<bar> \<le> \<bar>q\<bar> * s"
      proof (cases "0 \<le> q")
        case True
        with abs_le_abs_mult [OF s, of q] show ?thesis by simp
      next
        case False
        with s show ?thesis by (simp add: abs_mult)
      qed
      with minimum_term_exact [OF s b] show ?thesis by (simp add: t)
    qed
    show "\<bar>0\<bar> + (\<Sum>t\<leftarrow>ts. case t of (q, s) \<Rightarrow> \<bar>q\<bar> * s) \<le> 2 ^ 53"
      using assms(2) by simp
  qed
  then have "minimum_val (map Die_of_ints ts) = Finite (2 * exact_minimum ts)"
    by (simp add: minimum_val_terms exact_minimum_def)
  then show ?thesis by (simp only: minimum_def py_int_even)
qed

lemma maximum_exact:
  assumes "\<forall>(q, s)\<in>set ts. 1 \<le> s" "(\<Sum>(q, s)\<leftarrow>ts. \<bar>q\<bar> * s) \<le> 2 ^ 53"
  shows "maximum (map Die_of_ints ts) = Inr (exact_maximum ts)"
proof -
  have "foldl (\<lambda>val die. fadd val (maximum_term die)) (Finite (2 * 0)) (map Die_of_ints ts)
      = Finite (2 * (0 + (\<Sum>t\<leftarrow>ts. case t of (q, s) \<Rightarrow> if 0 \<le> q then q * s else q)))"
  proof (rule foldl_fadd_exact [where w = "\<lambda>(q, s). \<bar>q\<bar> * s"])
    show "fround (2 * x) = Finite (2 * x)" if "\<bar>x\<bar> \<le> 2 ^ 53" for x
      using that by (rule fround_exact_even)
    show "maximum_term (Die_of_ints t)
          = Finite (2 * (case t of (q, s) \<Rightarrow> if 0 \<le> q then q * s else q))
        \<and> \<bar>case t of (q, s) \<Rightarrow> if 0 \<le> q then q * s else q\<bar> \<le> (case t of (q, s) \<Rightarrow> \<bar>q\<bar> * s)"
      if "t \<in> set ts" for t
    proof -
      obtain q s where t: "t = (q, s)" by (cases t)
      with that assms(1) have s: "1 \<le> s" by auto
      have "\<bar>q\<bar> * s \<le> (\<Sum>(q, s)\<leftarrow>ts. \<bar>q\<bar> * s)"
        using that t assms(1) by (intro member_le_sum_list) auto
      with assms(2) have b: "\<bar>q\<bar> * s \<le> 2 ^ 53" by linarith
      have "\<bar>if 0 \<le> q then q * s else q\<bar> \<le> \<bar>q\<bar> * s"
      proof (cases "0 \<le> q")
        case True
        with s show ?thesis by (simp add: abs_mult)
      next
        case False
        with abs_le_abs_mult [OF s, of q] show ?thesis by simp
      qed
      with maximum_term_exact [OF s b] show ?thesis by (simp add: t)
    qed
    show "\<bar>0\<bar> + (\<Sum>t\<leftarrow>ts. case t of (q, s) \<Rightarrow> \<bar>q\<bar> * s) \<le> 2 ^ 53"
      using assms(2) by simp
  qed
  then have "maximum_val (map Die_of_ints ts) = Finite (2 * exact_maximum ts)"
    by (simp add: maximum_val_terms exact_maximum_def)
  then show ?thesis by (simp only: maximum_def py_int_even)
qed

lemma average_exact:
  assumes "\<forall>(q, s)\<in>set ts. 1 \<le> s \<and> s < 2 ^ 53" "(\<Sum>(q, s)\<leftarrow>ts. \<bar>q\<bar> * (1 + s)) \<le> 2 ^ 53"
  shows "average_val (map Die_of_ints ts) = Finite (\<Sum>(q, s)\<leftarrow>ts. q * (1 + s))"
proof -
  have "foldl (\<lambda>val die. fadd val (average_term die)) (Finite (1 * 0)) (map Die_of_ints ts)
      = Finite (1 * (0 + (\<Sum>t\<leftarrow>ts. case t of (q, s) \<Rightarrow> q * (1 + s))))"
  proof (rule foldl_fadd_exact [where w = "\<lambda>(q, s). \<bar>q\<bar> * (1 + s)"])
    show "fround (1 * x) = Finite (1 * x)" if "\<bar>x\<bar> \<le> 2 ^ 53" for x
      using that by (simp add: fround_exact)
    show "average_term (Die_of_ints t) = Finite (1 * (case t of (q, s) \<Rightarrow> q * (1 + s)))
        \<and> \<bar>case t of (q, s) \<Rightarrow> q * (1 + s)\<bar> \<le> (case t of (q, s) \<Rightarrow> \<bar>q\<bar> * (1 + s))"
      if "t \<in> set ts" for t
    proof -
      obtain q s where t: "t = (q, s)" by (cases t)
      with that assms(1) have s: "1 \<le> s" "s < 2 ^ 53" by auto
      have "\<bar>q\<bar> * (1 + s) \<le> (\<Sum>(q, s)\<leftarrow>ts. \<bar>q\<bar> * (1 + s))"
        using that t assms(1) by (intro member_le_sum_list) auto
      with assms(2) have b: "\<bar>q\<bar> * (1 + s) \<le> 2 ^ 53" by linarith
      from average_term_exact [OF s b] s show ?thesis by (simp add: t abs_mult)
    qed
    show "\<bar>0\<bar> + (\<Sum>t\<leftarrow>ts. case t of (q, s) \<Rightarrow> \<bar>q\<bar> * (1 + s)) \<le> 2 ^ 53"
      using assms(2) by simp
  qed
  then show ?thesis by (simp add: average_val_terms)
qed

subsection \<open>The rolls\<close>

lemma randrange_bounds:
  assumes "1 \<le> s"
  shows "\<exists>r. randrange draws s k = Inr (r, Suc k) \<and> 0 \<le> r \<and> r < s"
  using assms by (simp add: randrange_def)

lemma add_rolls_bounds:
  assumes "1 \<le> s"
  shows "\<exists>v k'. add_rolls draws s n (val, k) = Inr (v, k') \<and> val + int n \<le> v \<and> v \<le> val + int n * s"
proof (induction n arbitrary: val k)
  case 0
  show ?case by simp
next
  case (Suc n)
  from randrange_bounds [OF assms] obtain r
    where r: "randrange draws s k = Inr (r, Suc k)" "0 \<le> r" "r < s" by blast
  from Suc [of "val + (r + 1)" "Suc k"] obtain v k'
    where v: "add_rolls draws s n (val + (r + 1), Suc k) = Inr (v, k')"
      "val + (r + 1) + int n \<le> v" "v \<le> val + (r + 1) + int n * s" by blast
  have "val + int (Suc n) \<le> v" using v(2) r(2) by simp
  moreover have "v \<le> val + int (Suc n) * s" using v(3) r(3) by (simp add: distrib_right)
  ultimately show ?case using r(1) v(1) by simp
qed

lemma sub_rolls_bounds:
  assumes "1 \<le> s"
  shows "\<exists>v k'. sub_rolls draws s n (val, k) = Inr (v, k') \<and> val - int n * s \<le> v \<and> v \<le> val - int n"
proof (induction n arbitrary: val k)
  case 0
  show ?case by simp
next
  case (Suc n)
  from randrange_bounds [OF assms] obtain r
    where r: "randrange draws s k = Inr (r, Suc k)" "0 \<le> r" "r < s" by blast
  from Suc [of "val - (r + 1)" "Suc k"] obtain v k'
    where v: "sub_rolls draws s n (val - (r + 1), Suc k) = Inr (v, k')"
      "val - (r + 1) - int n * s \<le> v" "v \<le> val - (r + 1) - int n" by blast
  have "v \<le> val - int (Suc n)" using v(3) r(2) by simp
  moreover have "val - int (Suc n) * s \<le> v" using v(2) r(3) by (simp add: distrib_right)
  ultimately show ?case using r(1) v(1) by simp
qed

lemma shake_loop_bounds:
  assumes "\<forall>(q, s)\<in>set ts. 1 \<le> s"
  shows "\<exists>v. shake_loop draws (map Die_of_ints ts) (val, k) = Inr v
           \<and> val + exact_minimum ts \<le> v \<and> v \<le> val + exact_maximum ts"
  using assms
proof (induction ts arbitrary: val k)
  case Nil
  show ?case by (simp add: exact_minimum_def exact_maximum_def)
next
  case (Cons t ts)
  obtain q s where t: "t = (q, s)" by (cases t)
  with Cons.prems have s: "1 \<le> s" and rest: "\<forall>(q, s)\<in>set ts. 1 \<le> s" by auto
  have ints: "py_int (quantity (Die_of_ints (q, s))) = Inr q"
    "py_int (die_size (Die_of_ints (q, s))) = Inr s"
    by (simp_all only: Die_of_ints_def prod.case Die.simps py_int_even)
  have mn: "exact_minimum (t # ts) = (if 0 \<le> q then q else q * s) + exact_minimum ts"
    and mx: "exact_maximum (t # ts) = (if 0 \<le> q then q * s else q) + exact_maximum ts"
    by (simp_all add: exact_minimum_def exact_maximum_def t)
  consider "0 < q" | "q < 0" | "q = 0" by linarith
  then show ?case
  proof cases
    case 1
    from add_rolls_bounds [OF s, of draws "nat q" val k] 1 obtain v1 k1
      where a: "add_rolls draws s (nat q) (val, k) = Inr (v1, k1)" "val + q \<le> v1" "v1 \<le> val + q * s"
      by auto
    from Cons.IH [OF rest, of v1 k1] obtain v
      where v: "shake_loop draws (map Die_of_ints ts) (v1, k1) = Inr v"
        "v1 + exact_minimum ts \<le> v" "v \<le> v1 + exact_maximum ts" by blast
    have "shake_loop draws (map Die_of_ints (t # ts)) (val, k) = Inr v"
      using 1 a(1) v(1) ints by (simp add: t)
    moreover have "val + exact_minimum (t # ts) \<le> v" "v \<le> val + exact_maximum (t # ts)"
      using 1 a v mn mx by simp_all
    ultimately show ?thesis by blast
  next
    case 2
    from sub_rolls_bounds [OF s, of draws "nat \<bar>q\<bar>" val k] 2 obtain v1 k1
      where a: "sub_rolls draws s (nat \<bar>q\<bar>) (val, k) = Inr (v1, k1)" "val + q * s \<le> v1" "v1 \<le> val + q"
      by auto
    from Cons.IH [OF rest, of v1 k1] obtain v
      where v: "shake_loop draws (map Die_of_ints ts) (v1, k1) = Inr v"
        "v1 + exact_minimum ts \<le> v" "v \<le> v1 + exact_maximum ts" by blast
    have "shake_loop draws (map Die_of_ints (t # ts)) (val, k) = Inr v"
      using 2 a(1) v(1) ints by (simp add: t)
    moreover have "val + exact_minimum (t # ts) \<le> v" "v \<le> val + exact_maximum (t # ts)"
      using 2 a v mn mx by simp_all
    ultimately show ?thesis by blast
  next
    case 3
    from Cons.IH [OF rest, of val k] obtain v
      where v: "shake_loop draws (map Die_of_ints ts) (val, k) = Inr v"
        "val + exact_minimum ts \<le> v" "v \<le> val + exact_maximum ts" by blast
    have "shake_loop draws (map Die_of_ints (t # ts)) (val, k) = Inr v"
      using 3 v(1) ints by (simp add: t)
    moreover have "val + exact_minimum (t # ts) \<le> v" "v \<le> val + exact_maximum (t # ts)"
      using 3 v mn mx by simp_all
    ultimately show ?thesis by blast
  qed
qed

subsection \<open>Finite results come from finite operands\<close>

lemma fadd_Finite_D:
  "fadd x y = Finite r \<Longrightarrow> \<exists>a b. x = Finite a \<and> y = Finite b \<and> r = round_signed (a + b)"
  by (cases x; cases y) (auto dest: fround_Finite)

lemma fmul_Finite_D:
  "fmul x y = Finite r \<Longrightarrow> \<exists>a b. x = Finite a \<and> y = Finite b \<and> r = round_signed (a * b div 2)"
  by (cases x; cases y) (auto simp: Let_def dest: fround_Finite split: if_splits)

lemma fhalf_Finite_D: "fhalf x = Finite r \<Longrightarrow> \<exists>a. x = Finite a \<and> r = a div 2"
  by (cases x) auto

lemma foldl_fadd_Finite_start:
  "foldl (\<lambda>val die. fadd val (term die)) x dice = Finite r \<Longrightarrow> \<exists>a. x = Finite a"
proof (induction dice arbitrary: x)
  case Nil
  then show ?case by simp
next
  case (Cons d dice)
  then have "\<exists>a. fadd x (term d) = Finite a" by simp
  then show ?case by (auto dest: fadd_Finite_D)
qed

subsection \<open>The representation by halves is exact\<close>

text \<open>
  On the dice that the constructor builds, the two divisions by two of the model leave no
  remainder: a product has an integer-valued factor, and the float that \<^verbatim>\<open>average\<close>
  halves is integer-valued.
\<close>

lemma fmul_product_exact:
  assumes "integral (Finite a)"
  shows "2 * (a * b div 2) = a * b"
  using assms by simp

lemma fhalf_argument_even:
  assumes "integral (quantity d)" "integral (die_size d)"
    and "fmul (quantity d) (fadd (Finite 2) (die_size d)) = Finite p"
  shows "2 * (p div 2) = p"
proof -
  from fmul_Finite_D [OF assms(3)] obtain hq h1 where hq: "quantity d = Finite hq"
    and h1: "fadd (Finite 2) (die_size d) = Finite h1"
    and p: "p = round_signed (hq * h1 div 2)" by blast
  from fadd_Finite_D [OF h1] obtain hs where hs: "die_size d = Finite hs"
    and h1v: "h1 = round_signed (2 + hs)" by auto
  from assms(1) hq obtain a where a: "hq = 2 * a" by (auto elim: evenE)
  from assms(2) hs have "even (2 + hs)" by simp
  then have "even h1" unfolding h1v by (rule round_signed_even)
  then obtain b where b: "h1 = 2 * b" by (auto elim: evenE)
  have "hq * h1 div 2 = 2 * (a * b)" by (simp add: a b)
  then have "even p" unfolding p by (simp add: round_signed_even)
  then show ?thesis by simp
qed

subsection \<open>Sums of ordered terms\<close>

text \<open>Two sums over the same dice, one with smaller terms, are ordered.\<close>

lemma foldl_fadd_mono:
  assumes "foldl (\<lambda>val die. fadd val (term1 die)) (Finite x) dice = Finite r1"
    and "foldl (\<lambda>val die. fadd val (term2 die)) (Finite y) dice = Finite r2"
    and "x \<le> y"
    and "\<And>d a b. d \<in> set dice \<Longrightarrow> term1 d = Finite a \<Longrightarrow> term2 d = Finite b \<Longrightarrow> a \<le> b"
  shows "r1 \<le> r2"
  using assms
proof (induction dice arbitrary: x y)
  case Nil
  then show ?case by simp
next
  case (Cons d dice)
  from Cons.prems(1) have f1: "foldl (\<lambda>val die. fadd val (term1 die)) (fadd (Finite x) (term1 d)) dice = Finite r1"
    by simp
  from Cons.prems(2) have f2: "foldl (\<lambda>val die. fadd val (term2 die)) (fadd (Finite y) (term2 d)) dice = Finite r2"
    by simp
  from foldl_fadd_Finite_start [OF f1] obtain x' where x': "fadd (Finite x) (term1 d) = Finite x'"
    by blast
  from foldl_fadd_Finite_start [OF f2] obtain y' where y': "fadd (Finite y) (term2 d) = Finite y'"
    by blast
  from fadd_Finite_D [OF x'] obtain a where a: "term1 d = Finite a" "x' = round_signed (x + a)"
    by auto
  from fadd_Finite_D [OF y'] obtain b where b: "term2 d = Finite b" "y' = round_signed (y + b)"
    by auto
  have "a \<le> b" using a(1) b(1) by (intro Cons.prems(4) [of d]) simp_all
  with Cons.prems(3) have le: "x' \<le> y'" unfolding a(2) b(2) by (intro round_signed_mono) simp
  from f1 x' have "foldl (\<lambda>val die. fadd val (term1 die)) (Finite x') dice = Finite r1"
    by simp
  moreover from f2 y' have "foldl (\<lambda>val die. fadd val (term2 die)) (Finite y') dice = Finite r2"
    by simp
  ultimately show ?case using le
  proof (rule Cons.IH [of x' y'])
    fix e a b assume "e \<in> set dice" "term1 e = Finite a" "term2 e = Finite b"
    then show "a \<le> b" by (intro Cons.prems(4) [of e]) simp_all
  qed
qed

lemma py_int_mono:
  assumes "x \<le> y" "py_int (Finite x) = Inr a" "py_int (Finite y) = Inr b"
  shows "a \<le> b"
proof -
  from assms(2,3) have "a = (if 0 \<le> x then x div 2 else - ((- x) div 2))"
    "b = (if 0 \<le> y then y div 2 else - ((- y) div 2))" by simp_all
  with assms(1) show ?thesis by (simp split: if_splits)
qed

lemma py_int_Inr_D: "py_int x = Inr n \<Longrightarrow> \<exists>h. x = Finite h"
  by (cases x) simp_all

subsection \<open>The three terms of one die\<close>

lemma die_terms_ordered:
  assumes q: "integral (quantity d)" and s: "integral (die_size d)"
    and one: "fle (Finite 2) (die_size d)"
    and mn: "minimum_term d = Finite a"
    and av: "average_term d = Finite b"
    and mx: "maximum_term d = Finite c"
  shows "a \<le> b \<and> b \<le> c"
proof -
  from av obtain p where p: "fmul (quantity d) (fadd (Finite 2) (die_size d)) = Finite p"
    and b: "b = p div 2"
    unfolding average_term_def by (auto dest: fhalf_Finite_D)
  from fmul_Finite_D [OF p] obtain hq h1 where hq: "quantity d = Finite hq"
    and h1: "fadd (Finite 2) (die_size d) = Finite h1"
    and pv: "p = round_signed (hq * h1 div 2)" by blast
  from fadd_Finite_D [OF h1] obtain hs where hs: "die_size d = Finite hs"
    and h1v: "h1 = round_signed (2 + hs)" by auto
  from q hq have eq: "even hq" and rq: "round_signed hq = hq" by simp_all
  from s hs have rs: "round_signed hs = hs" by simp
  from one hs have s2: "2 \<le> hs" by simp
  have "round_signed 4 \<le> round_signed (2 + hs)" using s2 by (intro round_signed_mono) simp
  moreover have "round_signed 4 = 4" by (rule round_signed_exact) simp
  ultimately have h1_lo: "4 \<le> h1" using h1v by simp
  have "round_signed (2 + hs) \<le> round_signed (2 * hs)" using s2 by (intro round_signed_mono) simp
  then have h1_hi: "h1 \<le> 2 * hs" using h1v rs by (simp only: round_signed_double)
  have r2q: "round_signed (2 * hq) = 2 * hq" using rq by (simp only: round_signed_double)
  define k where "k = hq * hs div 2"
  have k: "hq * hs = 2 * k" using eq by (simp add: k_def)
  have r2k: "round_signed (2 * k) = 2 * round_signed k" by (rule round_signed_double)
  have small: "t = hq" if "fround hq = Finite t" for t
    using fround_Finite [OF that] rq by simp
  have big: "t = round_signed k" if "fround (hq * hs div 2) = Finite t" for t
    using fround_Finite [OF that] by (simp only: k_def)
  show ?thesis
  proof (cases "0 \<le> hq")
    case True
    from mn True hq have "fround hq = Finite a" by (simp add: minimum_term_def)
    then have a: "a = hq" by (rule small)
    from mx True hq hs have "fround (hq * hs div 2) = Finite c" by (simp add: maximum_term_def)
    then have c: "c = round_signed k" by (rule big)
    have "hq * 4 \<le> hq * h1" using True h1_lo by (rule mult_left_mono [rotated])
    then have "hq * 4 div 2 \<le> hq * h1 div 2" by (intro zdiv_mono1) simp_all
    then have "2 * hq \<le> hq * h1 div 2" by simp
    then have "round_signed (2 * hq) \<le> p" unfolding pv by (rule round_signed_mono)
    then have lo: "a \<le> b" using r2q a b by simp
    have "hq * h1 \<le> hq * (2 * hs)" using True h1_hi by (rule mult_left_mono [rotated])
    then have "hq * h1 div 2 \<le> hq * (2 * hs) div 2" by (intro zdiv_mono1) simp_all
    then have "hq * h1 div 2 \<le> 2 * k" using k by simp
    then have "p \<le> round_signed (2 * k)" unfolding pv by (rule round_signed_mono)
    then have "b \<le> c" using r2k b c by simp
    with lo show ?thesis ..
  next
    case False
    then have neg: "hq \<le> 0" by simp
    from mn False hq hs have "fround (hq * hs div 2) = Finite a" by (simp add: minimum_term_def)
    then have a: "a = round_signed k" by (rule big)
    from mx False hq have "fround hq = Finite c" by (simp add: maximum_term_def)
    then have c: "c = hq" by (rule small)
    have "hq * h1 \<le> hq * 4" using h1_lo neg by (rule mult_left_mono_neg)
    then have "hq * h1 div 2 \<le> hq * 4 div 2" by (intro zdiv_mono1) simp_all
    then have "hq * h1 div 2 \<le> 2 * hq" by simp
    then have "p \<le> round_signed (2 * hq)" unfolding pv by (rule round_signed_mono)
    then have hi: "b \<le> c" using r2q b c by simp
    have "hq * (2 * hs) \<le> hq * h1" using h1_hi neg by (rule mult_left_mono_neg)
    then have "hq * (2 * hs) div 2 \<le> hq * h1 div 2" by (intro zdiv_mono1) simp_all
    then have "2 * k \<le> hq * h1 div 2" using k by simp
    then have "round_signed (2 * k) \<le> p" unfolding pv by (rule round_signed_mono)
    then have "a \<le> b" using r2k a b by simp
    then show ?thesis using hi ..
  qed
qed


subsection \<open>The average lies between the minimum and the maximum\<close>

text \<open>
  Claim C2, as stated, fails: the constructor accepts \<^verbatim>\<open>"1d0"\<close>, whose minimum is 1
  while its average and its maximum are 0.
\<close>

theorem C2_average_outside_range_counterexample:
  "DiceBag_init ''1d0'' = Inr [\<lparr>quantity = Finite 2, die_size = Finite 0\<rparr>]
   \<and> minimum [\<lparr>quantity = Finite 2, die_size = Finite 0\<rparr>] = Inr 1
   \<and> average [\<lparr>quantity = Finite 2, die_size = Finite 0\<rparr>] = Inr 0
   \<and> maximum [\<lparr>quantity = Finite 2, die_size = Finite 0\<rparr>] = Inr 0"
  by code_simp

text \<open>
  Claim C2, amended. For every string that the constructor accepts and whose dice all
  have a size of at least one (\<^verbatim>\<open>1.0 <= die.size\<close>), whenever \<^verbatim>\<open>minimum\<close>, \<^verbatim>\<open>average\<close> and
  \<^verbatim>\<open>maximum\<close> return, the minimum is at most the average and the average is at most the
  maximum. The floats may be rounded here: the proof rests on rounding being monotone.
\<close>

theorem C2_average_between_minimum_and_maximum:
  assumes "DiceBag_init dice_string = Inr bag"
    and "\<forall>d\<in>set bag. fle (Finite 2) (die_size d)"
    and "minimum bag = Inr lo" "average bag = Inr av" "maximum bag = Inr hi"
  shows "lo \<le> av \<and> av \<le> hi"
proof -
  from assms(3) have "py_int (minimum_val bag) = Inr lo" by (simp only: minimum_def)
  then obtain x where x: "minimum_val bag = Finite x" "py_int (Finite x) = Inr lo"
    using py_int_Inr_D by metis
  from assms(4) have "py_int (average_val bag) = Inr av" by (simp only: average_def)
  then obtain y where y: "average_val bag = Finite y" "py_int (Finite y) = Inr av"
    using py_int_Inr_D by metis
  from assms(5) have "py_int (maximum_val bag) = Inr hi" by (simp only: maximum_def)
  then obtain z where z: "maximum_val bag = Finite z" "py_int (Finite z) = Inr hi"
    using py_int_Inr_D by metis
  have terms: "a \<le> b \<and> b \<le> c"
    if "d \<in> set bag" "minimum_term d = Finite a" "average_term d = Finite b"
      "maximum_term d = Finite c" for d a b c
    using DiceBag_init_dice [OF assms(1) that(1)] assms(2) that
    by (intro die_terms_ordered [of d]) simp_all
  have finite_terms: "\<exists>a. term d = Finite a"
    if "foldl (\<lambda>val die. fadd val (term die)) (Finite 0) bag = Finite r" "d \<in> set bag"
    for "term" :: "Die \<Rightarrow> pyfloat" and r d
  proof -
    from that(2) obtain ds1 ds2 where "bag = ds1 @ d # ds2" by (auto dest: split_list)
    with that(1) have "\<exists>r'. fadd (foldl (\<lambda>val die. fadd val (term die)) (Finite 0) ds1) (term d) = Finite r'"
      by (auto dest: foldl_fadd_Finite_start)
    then show ?thesis by (auto dest: fadd_Finite_D)
  qed
  note fx = x(1) [unfolded minimum_val_terms]
  note fy = y(1) [unfolded average_val_terms]
  note fz = z(1) [unfolded maximum_val_terms]
  have "x \<le> y"
  proof (rule foldl_fadd_mono [OF fx fy])
    fix d a b assume d: "d \<in> set bag" "minimum_term d = Finite a" "average_term d = Finite b"
    from finite_terms [OF fz d(1)] obtain c where "maximum_term d = Finite c" by blast
    with terms [OF d] show "a \<le> b" by simp
  qed simp
  moreover have "y \<le> z"
  proof (rule foldl_fadd_mono [OF fy fz])
    fix d b c assume d: "d \<in> set bag" "average_term d = Finite b" "maximum_term d = Finite c"
    from finite_terms [OF fx d(1)] obtain a where "minimum_term d = Finite a" by blast
    with terms [OF d(1) _ d(2,3)] show "b \<le> c" by simp
  qed simp
  ultimately show ?thesis using x(2) y(2) z(2) by (auto intro: py_int_mono)
qed

text \<open>The theorem of claim C2 at \<^verbatim>\<open>"3d6+1-2d2"\<close>.\<close>

theorem C2_average_between_minimum_and_maximum_witness:
  "DiceBag_init ''3d6+1-2d2'' =
     Inr [\<lparr>quantity = Finite 6, die_size = Finite 12\<rparr>,
          \<lparr>quantity = Finite 2, die_size = Finite 2\<rparr>,
          \<lparr>quantity = Finite (- 4), die_size = Finite 4\<rparr>]
   \<and> minimum [\<lparr>quantity = Finite 6, die_size = Finite 12\<rparr>,
          \<lparr>quantity = Finite 2, die_size = Finite 2\<rparr>,
          \<lparr>quantity = Finite (- 4), die_size = Finite 4\<rparr>] = Inr 0
   \<and> average [\<lparr>quantity = Finite 6, die_size = Finite 12\<rparr>,
          \<lparr>quantity = Finite 2, die_size = Finite 2\<rparr>,
          \<lparr>quantity = Finite (- 4), die_size = Finite 4\<rparr>] = Inr 8
   \<and> maximum [\<lparr>quantity = Finite 6, die_size = Finite 12\<rparr>,
          \<lparr>quantity = Finite 2, die_size = Finite 2\<rparr>,
          \<lparr>quantity = Finite (- 4), die_size = Finite 4\<rparr>] = Inr 17
   \<and> (0::int) \<le> 8 \<and> (8::int) \<le> 17"
proof -
  let ?bag = "[\<lparr>quantity = Finite 6, die_size = Finite 12\<rparr>,
          \<lparr>quantity = Finite 2, die_size = Finite 2\<rparr>,
          \<lparr>quantity = Finite (- 4), die_size = Finite 4\<rparr>]"
  have run: "DiceBag_init ''3d6+1-2d2'' = Inr ?bag" by code_simp
  have sizes: "\<forall>d\<in>set ?bag. fle (Finite 2) (die_size d)" by simp
  have mn: "minimum ?bag = Inr 0" by code_simp
  have av: "average ?bag = Inr 8" by code_simp
  have mx: "maximum ?bag = Inr 17" by code_simp
  from C2_average_between_minimum_and_maximum [OF run sizes mn av mx]
  have "(0::int) \<le> 8 \<and> (8::int) \<le> 17" .
  with run mn av mx show ?thesis by blast
qed

subsection \<open>When the evaluation returns\<close>











subsection \<open>Evaluation in the exact range\<close>

text \<open>
  Claim C4, as stated, fails: for \<^verbatim>\<open>"1d9007199254740992+1+1"\<close> the float sum of
  \<^verbatim>\<open>maximum\<close> stays at \<open>2^53\<close> (adding \<open>1.0\<close> to \<open>2^53\<close> rounds back to \<open>2^53\<close>), while
  \<^verbatim>\<open>shake\<close> adds integers and returns \<open>2^53 + 2\<close> when the first draw is \<open>2^53 - 1\<close>.
\<close>

theorem C4_shake_above_maximum_counterexample:
  "DiceBag_init ''1d9007199254740992+1+1'' =
     Inr [\<lparr>quantity = Finite 2, die_size = Finite 18014398509481984\<rparr>,
          \<lparr>quantity = Finite 2, die_size = Finite 2\<rparr>,
          \<lparr>quantity = Finite 2, die_size = Finite 2\<rparr>]
   \<and> maximum [\<lparr>quantity = Finite 2, die_size = Finite 18014398509481984\<rparr>,
          \<lparr>quantity = Finite 2, die_size = Finite 2\<rparr>,
          \<lparr>quantity = Finite 2, die_size = Finite 2\<rparr>] = Inr 9007199254740992
   \<and> shake (\<lambda>k. 9007199254740991)
        [\<lparr>quantity = Finite 2, die_size = Finite 18014398509481984\<rparr>,
         \<lparr>quantity = Finite 2, die_size = Finite 2\<rparr>,
         \<lparr>quantity = Finite 2, die_size = Finite 2\<rparr>] = Inr 9007199254740994"
proof -
  have "DiceBag_init ''1d9007199254740992+1+1'' =
     Inr [\<lparr>quantity = Finite 2, die_size = Finite 18014398509481984\<rparr>,
          \<lparr>quantity = Finite 2, die_size = Finite 2\<rparr>,
          \<lparr>quantity = Finite 2, die_size = Finite 2\<rparr>]"
    by code_simp
  moreover have "maximum [\<lparr>quantity = Finite 2, die_size = Finite 18014398509481984\<rparr>,
          \<lparr>quantity = Finite 2, die_size = Finite 2\<rparr>,
          \<lparr>quantity = Finite 2, die_size = Finite 2\<rparr>] = Inr 9007199254740992"
    by code_simp
  moreover have "shake (\<lambda>k. 9007199254740991)
        [\<lparr>quantity = Finite 2, die_size = Finite 18014398509481984\<rparr>,
         \<lparr>quantity = Finite 2, die_size = Finite 2\<rparr>,
         \<lparr>quantity = Finite 2, die_size = Finite 2\<rparr>] = Inr 9007199254740994"
    by (simp add: shake_def randrange_def)
  ultimately show ?thesis by blast
qed

text \<open>
  Claim C4, amended. Let the constructor accept a string, with the dice \<open>q\<close>d\<open>s\<close> for the
  pairs \<open>(q, s)\<close> of the list \<open>ts\<close>, every size at least \<open>1\<close>, and the sum of \<open>|q| * s\<close> at
  most \<open>2^53\<close>. Then \<^verbatim>\<open>minimum\<close> and \<^verbatim>\<open>maximum\<close> return, \<^verbatim>\<open>shake\<close> returns for any random
  draws, and its value lies between the two.
\<close>

theorem C4_shake_within_range:
  assumes "DiceBag_init dice_string = Inr (map Die_of_ints ts)"
    and "\<forall>(q, s)\<in>set ts. 1 \<le> s"
    and "(\<Sum>(q, s)\<leftarrow>ts. \<bar>q\<bar> * s) \<le> 2 ^ 53"
  shows "\<exists>lo hi v. minimum (map Die_of_ints ts) = Inr lo
           \<and> maximum (map Die_of_ints ts) = Inr hi
           \<and> shake draws (map Die_of_ints ts) = Inr v
           \<and> lo \<le> v \<and> v \<le> hi"
proof -
  from shake_loop_bounds [OF assms(2), of draws 0 0] obtain v
    where "shake draws (map Die_of_ints ts) = Inr v" "exact_minimum ts \<le> v" "v \<le> exact_maximum ts"
    by (auto simp: shake_def)
  with minimum_exact [OF assms(2,3)] maximum_exact [OF assms(2,3)] show ?thesis by blast
qed

text \<open>The theorem of claim C4 at \<^verbatim>\<open>"3d6+1-2d2"\<close>.\<close>

theorem C4_shake_within_range_witness:
  "DiceBag_init ''3d6+1-2d2'' = Inr (map Die_of_ints [(3, 6), (1, 1), (- 2, 2)])
   \<and> (\<exists>lo hi v. minimum (map Die_of_ints [(3, 6), (1, 1), (- 2, 2)]) = Inr lo
         \<and> maximum (map Die_of_ints [(3, 6), (1, 1), (- 2, 2)]) = Inr hi
         \<and> shake (\<lambda>k. k) (map Die_of_ints [(3, 6), (1, 1), (- 2, 2)]) = Inr v
         \<and> lo \<le> v \<and> v \<le> hi)"
proof -
  have run: "DiceBag_init ''3d6+1-2d2'' = Inr (map Die_of_ints [(3, 6), (1, 1), (- 2, 2)])"
    by code_simp
  have sizes: "\<forall>(q, s)\<in>set [(3, 6), (1, 1), (- 2, 2 :: int)]. 1 \<le> s"
    by simp
  have total: "(\<Sum>(q, s)\<leftarrow>[(3, 6), (1, 1), (- 2, 2 :: int)]. \<bar>q\<bar> * s) \<le> 2 ^ 53"
    by simp
  from run C4_shake_within_range [OF run sizes total, of "\<lambda>k. k"] show ?thesis by (rule conjI)
qed

end
